(* ===== verification/Prelude.thy ===== *)
theory Prelude
  imports Main "HOL-Library.Word" "HOL-Library.AList" "HOL-Library.Sublist"
    "HOL-Library.While_Combinator"
    "HOL-Library.Multiset"
begin

text \<open>
  Shared vocabulary of the httpflow development: the names of the model's types,
  the model of the two C++ standard-library containers the code relies on
  (\<^verbatim>\<open>std::map::insert\<close>, which never overwrites, and the C string
  functions \<^verbatim>\<open>strstr\<close> and \<^verbatim>\<open>c_str\<close>), and the generic lemmas on
  association lists, prefixes and 32-bit words that the component theories share.
\<close>

section \<open>Types\<close>

type_synonym u32 = "32 word"

text \<open>A \<^verbatim>\<open>std::string\<close> holding raw bytes: a list of 8-bit characters.\<close>

type_synonym bytes = string

text \<open>
  A \<^verbatim>\<open>std::map<uint32_t, std::string>\<close> as an association list.  Only
  \<^verbatim>\<open>insert\<close>, \<^verbatim>\<open>find\<close>, \<^verbatim>\<open>erase\<close> and \<^verbatim>\<open>empty\<close> are used by the code, so the
  order of the entries is irrelevant; \<open>map_of\<close> is its meaning.
\<close>

type_synonym seq_map = "(u32 \<times> bytes) list"

named_theorems alist_simps "facts on association lists used by the container proofs"

section \<open>Library operations\<close>

text \<open>\<^verbatim>\<open>std::map::insert(std::make_pair(k, v))\<close>: no effect when \<open>k\<close> is present.\<close>

definition map_insert :: "'k \<Rightarrow> 'v \<Rightarrow> ('k \<times> 'v) list \<Rightarrow> ('k \<times> 'v) list" where
  "map_insert k v m = (case map_of m k of None \<Rightarrow> (k, v) # m | Some _ \<Rightarrow> m)"

text \<open>
  \<^verbatim>\<open>strstr(at, needle) != NULL\<close>: \<open>at\<close> is read as a C string, up to its first NUL
  byte, and the needle is searched in it.
\<close>

definition c_string :: "bytes \<Rightarrow> bytes" where
  "c_string s = takeWhile (\<lambda>c. c \<noteq> CHR 0x00) s"

fun strstr_found :: "bytes \<Rightarrow> bytes \<Rightarrow> bool" where
  "strstr_found [] needle = (needle = [])"
| "strstr_found (c # cs) needle = (prefix needle (c # cs) \<or> strstr_found cs needle)"

section \<open>Lemmas on association lists\<close>

lemma map_of_map_insert [alist_simps]:
  "map_of (map_insert k v m) = (case map_of m k of None \<Rightarrow> (map_of m)(k \<mapsto> v) | Some _ \<Rightarrow> map_of m)"
  by (simp add: map_insert_def split: option.split)

lemma map_of_map_insert_None [alist_simps]:
  "map_of m k = None \<Longrightarrow> map_of (map_insert k v m) = (map_of m)(k \<mapsto> v)"
  by (simp add: map_of_map_insert)

lemma distinct_map_insert [alist_simps]:
  "distinct (map fst m) \<Longrightarrow> distinct (map fst (map_insert k v m))"
  by (auto simp: map_insert_def map_of_eq_None_iff split: option.split)

lemma length_map_insert_le: "length (map_insert k v m) \<le> Suc (length m)"
  by (simp add: map_insert_def split: option.split)

lemma length_delete_less:
  "map_of m k = Some v \<Longrightarrow> length (AList.delete k m) < length m"
proof -
  assume "map_of m k = Some v"
  then have "(k, v) \<in> set m" by (rule map_of_SomeD)
  then have "length (filter (\<lambda>(k', _). k \<noteq> k') m) < length m"
    by (rule length_filter_less) simp
  then show ?thesis
    by (simp add: AList.delete_eq)
qed

lemma map_of_empty_iff_Nil [alist_simps]: "map_of m = Map.empty \<longleftrightarrow> m = []"
proof
  assume "map_of m = Map.empty"
  then show "m = []"
    by (cases m) (auto simp: fun_eq_iff split: if_splits)
qed simp

lemmas delete_simps_alist [alist_simps] = delete_conv' distinct_delete

section \<open>Lemmas on words\<close>

text \<open>
  Sequence numbers are \<^verbatim>\<open>uint32_t\<close>.  \<^verbatim>\<open>packet.seq + packet.body.size()\<close> is
  computed in \<^verbatim>\<open>size_t\<close> and truncated on assignment, which is addition of
  \<open>of_nat\<close> of the length in \<open>32 word\<close>.
\<close>

lemma add_of_nat_add_of_nat [simp]:
  "(b + of_nat x) + of_nat y = (b :: 'a::len word) + of_nat (x + y)"
  by simp

lemma unat_add_of_nat:
  "unat b + n < 2 ^ LENGTH('a) \<Longrightarrow> unat ((b :: 'a::len word) + of_nat n) = unat b + n"
proof -
  assume lt: "unat b + n < 2 ^ LENGTH('a)"
  then have "n < 2 ^ LENGTH('a)" by simp
  then have "unat (of_nat n :: 'a word) = n" by (simp add: unat_of_nat)
  with lt show ?thesis by (simp add: unat_word_ariths)
qed

lemma add_of_nat_less_mono:
  assumes "i < j" and "unat b + j < 2 ^ LENGTH('a)"
  shows "(b :: 'a::len word) + of_nat i < b + of_nat j"
proof -
  from assms have "unat (b + of_nat i) = unat b + i" and "unat (b + of_nat j) = unat b + j"
    by (simp_all add: unat_add_of_nat)
  with assms(1) show ?thesis by (simp add: word_less_nat_alt)
qed

lemma add_of_nat_inj:
  assumes "unat b + i < 2 ^ LENGTH('a)" and "unat b + j < 2 ^ LENGTH('a)"
    and "(b :: 'a::len word) + of_nat i = b + of_nat j"
  shows "i = j"
proof -
  from assms(1,2) have "unat (b + of_nat i) = unat b + i" and "unat (b + of_nat j) = unat b + j"
    by (simp_all add: unat_add_of_nat)
  with assms(3) have "unat b + i = unat b + j" by metis
  then show ?thesis by (rule add_left_imp_eq)
qed

lemma add_of_nat_nonzero:
  assumes "0 < n" and "unat b + n < 2 ^ LENGTH('a)"
  shows "(b :: 'a::len word) + of_nat n \<noteq> 0"
proof -
  from assms(2) have "unat (b + of_nat n) = unat b + n" by (rule unat_add_of_nat)
  with assms(1) show ?thesis by (auto simp: unat_eq_zero)
qed

text \<open>Adding \<open>n\<close> to a word wraps below it exactly when the sum reaches \<open>2^LENGTH\<close>.\<close>

lemma add_of_nat_less_self_iff:
  assumes "n < 2 ^ LENGTH('a)"
  shows "(b :: 'a::len word) + of_nat n < b \<longleftrightarrow> 2 ^ LENGTH('a) \<le> unat b + n"
proof -
  have un: "unat (of_nat n :: 'a word) = n" using assms by (simp add: unat_of_nat)
  have sum: "unat (b + of_nat n) = (unat b + n) mod 2 ^ LENGTH('a)"
    using un by (simp add: unat_word_ariths(1))
  have ub: "unat b < 2 ^ LENGTH('a)" by simp
  show ?thesis
  proof (cases "2 ^ LENGTH('a) \<le> unat b + n")
    case True
    moreover from ub assms have "unat b + n - 2 ^ LENGTH('a) < 2 ^ LENGTH('a)" by linarith
    ultimately have "(unat b + n) mod 2 ^ LENGTH('a) = unat b + n - 2 ^ LENGTH('a)"
      by (simp add: le_mod_geq)
    with True assms sum show ?thesis by (simp add: word_less_nat_alt)
  next
    case False
    then have "(unat b + n) mod 2 ^ LENGTH('a) = unat b + n" by simp
    with False sum show ?thesis by (simp add: word_less_nat_alt)
  qed
qed

lemma prefix_drop_length: "prefix xs ys \<Longrightarrow> ys = xs @ drop (length xs) ys"
  by (metis append_eq_conv_conj prefix_def)

lemma prefix_length_eq: "prefix xs ys \<Longrightarrow> \<not> length xs < length ys \<Longrightarrow> ys = xs"
  by (auto simp: prefix_def)

section \<open>Lemmas on strings\<close>

lemma strstr_found_sublist: "strstr_found hay needle \<longleftrightarrow> sublist needle hay"
  by (induction hay needle rule: strstr_found.induct)
    (auto simp: sublist_Cons_right)

end
