(* ===== verification/Reassembly.thy ===== *)
theory Reassembly
  imports Prelude
begin

text \<open>
  Per-direction TCP segment reassembly: lines 25--52 of
  \<^verbatim>\<open>custom_parser::parse\<close> (src/custom_parser.cpp).  The C++ keeps three
  arrays indexed by the direction, \<^verbatim>\<open>raw[]\<close>, \<^verbatim>\<open>next_seq[]\<close> and
  \<^verbatim>\<open>out_of_order_packet[]\<close>; one direction's entries form a \<open>stream_state\<close>.
  \<open>next_seq = 0\<close> is the code's "no segment seen yet" sentinel.
\<close>

section \<open>Data\<close>

text \<open>\<^verbatim>\<open>struct packet_info\<close>: the fields \<^verbatim>\<open>seq\<close> and \<^verbatim>\<open>body\<close> that \<^verbatim>\<open>parse\<close> reads.\<close>

record packet_info =
  seq :: u32
  payload :: bytes

record stream_state =
  raw :: bytes
  next_seq :: u32
  ooo :: seq_map

definition empty_stream :: stream_state where
  "empty_stream = \<lparr>raw = [], next_seq = 0, ooo = []\<rparr>"

section \<open>The drain loop\<close>

text \<open>
  Lines 41--51: while the out-of-order map is not empty, look up \<^verbatim>\<open>next_seq\<close>;
  on a hit append the stored bytes, advance \<^verbatim>\<open>next_seq\<close> by their length
  (\<^verbatim>\<open>uint32_t += size_t\<close>, so modulo \<open>2^32\<close>) and erase the entry; on a miss
  break.  Each iteration erases an entry, which is the termination measure.
\<close>

function drain_ooo :: "stream_state \<Rightarrow> stream_state" where
  "drain_ooo s =
     (if ooo s = [] then s
      else (case map_of (ooo s) (next_seq s) of
              Some b \<Rightarrow> drain_ooo (s\<lparr>raw := raw s @ b,
                                     next_seq := next_seq s + of_nat (length b),
                                     ooo := AList.delete (next_seq s) (ooo s)\<rparr>)
            | None \<Rightarrow> s))"
  by pat_completeness auto
termination
  by (relation "measure (\<lambda>s. length (ooo s))") (auto simp: length_delete_less)

declare drain_ooo.simps [simp del]

text \<open>
  The same loop as the code writes it, a \<^verbatim>\<open>while\<close> whose body either drains the
  entry at \<^verbatim>\<open>next_seq\<close> or \<^verbatim>\<open>break\<close>s: the loop runs while the map is not empty
  and the lookup hits.  \<open>while_option\<close> is \<open>None\<close> when the loop does not stop.
\<close>

definition drain_guard :: "stream_state \<Rightarrow> bool" where
  "drain_guard s \<longleftrightarrow> ooo s \<noteq> [] \<and> map_of (ooo s) (next_seq s) \<noteq> None"

definition drain_body :: "stream_state \<Rightarrow> stream_state" where
  "drain_body s =
     (case map_of (ooo s) (next_seq s) of
        Some b \<Rightarrow> s\<lparr>raw := raw s @ b, next_seq := next_seq s + of_nat (length b),
                   ooo := AList.delete (next_seq s) (ooo s)\<rparr>
      | None \<Rightarrow> s)"

definition drain_loop :: "stream_state \<Rightarrow> stream_state option" where
  "drain_loop s = while_option drain_guard drain_body s"

section \<open>One segment\<close>

text \<open>
  The early \<^verbatim>\<open>return true\<close> of line 33 (a retransmission) leaves the stream
  untouched and skips the token parser; every other path runs the drain loop.
\<close>

datatype reassembly = Retransmission | Reassembled stream_state

definition reassemble :: "packet_info \<Rightarrow> stream_state \<Rightarrow> reassembly" where
  "reassemble p s =
     (if next_seq s \<noteq> 0 \<and> seq p \<noteq> next_seq s then
        (if seq p < next_seq s then Retransmission
         else Reassembled (drain_ooo (s\<lparr>ooo := map_insert (seq p) (payload p) (ooo s)\<rparr>)))
      else Reassembled (drain_ooo (s\<lparr>raw := raw s @ payload p,
                                    next_seq := seq p + of_nat (length (payload p))\<rparr>)))"

text \<open>The stream after a call: unchanged by a retransmission.\<close>

definition reassembled :: "stream_state \<Rightarrow> reassembly \<Rightarrow> stream_state" where
  "reassembled s r = (case r of Retransmission \<Rightarrow> s | Reassembled s' \<Rightarrow> s')"

section \<open>The reassembly invariant\<close>

text \<open>
  Between two calls, the keys of the out-of-order map are distinct (it is a
  \<^verbatim>\<open>std::map\<close>) and the entry for \<^verbatim>\<open>next_seq\<close> has been drained.
\<close>

definition stream_inv :: "stream_state \<Rightarrow> bool" where
  "stream_inv s \<longleftrightarrow> distinct (map fst (ooo s)) \<and> map_of (ooo s) (next_seq s) = None"

text \<open>
  The reassembly of one direction over a sequence of segments, as successive calls of
  \<^verbatim>\<open>parse\<close> for that direction perform it (a retransmission leaves the stream as
  it was).  This is the caller's loop, not a function of the source.
\<close>

fun reassemble_all :: "packet_info list \<Rightarrow> stream_state \<Rightarrow> stream_state" where
  "reassemble_all [] s = s"
| "reassemble_all (p # ps) s =
     reassemble_all ps (case reassemble p s of Retransmission \<Rightarrow> s | Reassembled s' \<Rightarrow> s')"

section \<open>The drain loop: what it does\<close>

text \<open>One iteration of the loop, and its exit (a miss, which includes the empty map).\<close>

lemma drain_ooo_step:
  "map_of (ooo s) (next_seq s) = Some b \<Longrightarrow>
   drain_ooo s = drain_ooo (s\<lparr>raw := raw s @ b, next_seq := next_seq s + of_nat (length b),
                              ooo := AList.delete (next_seq s) (ooo s)\<rparr>)"
  by (subst drain_ooo.simps) auto

lemma drain_ooo_stop: "map_of (ooo s) (next_seq s) = None \<Longrightarrow> drain_ooo s = s"
  by (subst drain_ooo.simps) auto

text \<open>
  C4: the drain loop of lines 41--51, as the code writes it, stops after at most as
  many iterations as the map has entries, and its result is \<open>drain_ooo\<close>'s.
\<close>

theorem drain_loop_terminates:
  "\<exists>k \<le> length (ooo s). drain_loop s = Some ((drain_body ^^ k) s) \<and> (drain_body ^^ k) s = drain_ooo s"
proof (induction s rule: drain_ooo.induct)
  case (1 s)
  show ?case
  proof (cases "map_of (ooo s) (next_seq s)")
    case None
    then have "\<not> drain_guard s" by (simp add: drain_guard_def)
    with None show ?thesis
      by (intro exI [of _ 0]) (simp add: drain_loop_def while_option_unfold [of _ _ s] drain_ooo_stop)
  next
    case (Some b)
    let ?t = "s\<lparr>raw := raw s @ b, next_seq := next_seq s + of_nat (length b),
                ooo := AList.delete (next_seq s) (ooo s)\<rparr>"
    have ne: "ooo s \<noteq> []" using Some by auto
    have body: "drain_body s = ?t" using Some by (simp add: drain_body_def)
    have g: "drain_guard s" using Some ne by (simp add: drain_guard_def)
    from "1" ne Some obtain k where k: "k \<le> length (ooo ?t)"
      and run: "drain_loop ?t = Some ((drain_body ^^ k) ?t)" and eq: "(drain_body ^^ k) ?t = drain_ooo ?t"
      by auto
    have "length (ooo ?t) < length (ooo s)"
      using Some by (simp add: length_delete_less)
    with k have "Suc k \<le> length (ooo s)" by simp
    moreover have "drain_loop s = drain_loop ?t"
      using g body by (simp add: drain_loop_def while_option_unfold [of _ _ s])
    moreover have "(drain_body ^^ Suc k) s = (drain_body ^^ k) ?t"
      by (simp only: funpow_Suc_right comp_apply body)
    ultimately show ?thesis using run eq drain_ooo_step [OF Some] by metis
  qed
qed

text \<open>
  The loop only appends to the stream, advances \<^verbatim>\<open>next_seq\<close> by exactly the number
  of bytes it appends, and only removes entries from the map.
\<close>

lemma drain_ooo_extends:
  "\<exists>d. raw (drain_ooo s) = raw s @ d \<and> next_seq (drain_ooo s) = next_seq s + of_nat (length d)
       \<and> set (ooo (drain_ooo s)) \<subseteq> set (ooo s)"
proof (induction s rule: drain_ooo.induct)
  case (1 s)
  show ?case
  proof (cases "map_of (ooo s) (next_seq s)")
    case None
    then have "drain_ooo s = s" by (rule drain_ooo_stop)
    then show ?thesis by (intro exI [of _ "[]"]) simp
  next
    case (Some b)
    let ?t = "s\<lparr>raw := raw s @ b, next_seq := next_seq s + of_nat (length b),
                ooo := AList.delete (next_seq s) (ooo s)\<rparr>"
    from Some have ne: "ooo s \<noteq> []" by auto
    from "1" [OF ne Some] obtain d where
      d1: "raw (drain_ooo ?t) = raw ?t @ d" and
      d2: "next_seq (drain_ooo ?t) = next_seq ?t + of_nat (length d)" and
      d3: "set (ooo (drain_ooo ?t)) \<subseteq> set (ooo ?t)"
      by blast
    have "set (ooo ?t) \<subseteq> set (ooo s)" by (auto simp: AList.delete_eq)
    with d3 have "set (ooo (drain_ooo ?t)) \<subseteq> set (ooo s)" by (rule order_trans)
    moreover from d1 have "raw (drain_ooo ?t) = raw s @ (b @ d)" by simp
    moreover from d2 have "next_seq (drain_ooo ?t) = next_seq s + of_nat (length (b @ d))" by simp
    ultimately show ?thesis
      unfolding drain_ooo_step [OF Some] by blast
  qed
qed
text \<open>When the loop exits, the entry for \<^verbatim>\<open>next_seq\<close> is not in the map.\<close>

lemma drain_ooo_drained: "map_of (ooo (drain_ooo s)) (next_seq (drain_ooo s)) = None"
proof (induction s rule: drain_ooo.induct)
  case (1 s)
  show ?case
  proof (cases "map_of (ooo s) (next_seq s)")
    case None
    then show ?thesis by (simp add: drain_ooo_stop)
  next
    case (Some b)
    then have "ooo s \<noteq> []" by auto
    with "1" Some show ?thesis by (simp add: drain_ooo_step [OF Some])
  qed
qed

lemma drain_ooo_distinct:
  "distinct (map fst (ooo s)) \<Longrightarrow> distinct (map fst (ooo (drain_ooo s)))"
proof (induction s rule: drain_ooo.induct)
  case (1 s)
  show ?case
  proof (cases "map_of (ooo s) (next_seq s)")
    case None
    with "1.prems" show ?thesis by (simp add: drain_ooo_stop)
  next
    case (Some b)
    then have "ooo s \<noteq> []" by auto
    with "1" Some show ?thesis by (simp add: drain_ooo_step [OF Some] distinct_delete)
  qed
qed

section \<open>One segment: what it does\<close>

lemma reassemble_in_order:
  "next_seq s = 0 \<or> seq p = next_seq s \<Longrightarrow>
   reassemble p s = Reassembled (drain_ooo (s\<lparr>raw := raw s @ payload p,
                                    next_seq := seq p + of_nat (length (payload p))\<rparr>))"
  by (auto simp: reassemble_def)

lemma reassemble_ahead:
  "next_seq s \<noteq> 0 \<Longrightarrow> next_seq s < seq p \<Longrightarrow>
   reassemble p s = Reassembled (drain_ooo (s\<lparr>ooo := map_insert (seq p) (payload p) (ooo s)\<rparr>))"
  by (auto simp: reassemble_def)

lemma reassemble_behind:
  "next_seq s \<noteq> 0 \<Longrightarrow> seq p < next_seq s \<Longrightarrow> reassemble p s = Retransmission"
  by (auto simp: reassemble_def)

lemmas reassemble_cases = reassemble_in_order reassemble_ahead reassemble_behind

text \<open>
  Every outcome of \<open>reassemble\<close> is reached through the drain loop from one of the
  two updated states, which the following lemma names; the properties of one segment
  follow from it and the drain lemmas.
\<close>

lemma reassemble_Reassembled:
  assumes "reassemble p s = Reassembled s'"
  obtains (appended) "next_seq s = 0 \<or> seq p = next_seq s"
      "s' = drain_ooo (s\<lparr>raw := raw s @ payload p, next_seq := seq p + of_nat (length (payload p))\<rparr>)"
  | (buffered) "next_seq s \<noteq> 0" "next_seq s < seq p"
      "s' = drain_ooo (s\<lparr>ooo := map_insert (seq p) (payload p) (ooo s)\<rparr>)"
  using assms by (auto simp: reassemble_def split: if_splits)

text \<open>The outcome of one segment, in the terms of the two updated states.\<close>

lemma reassemble_extends:
  assumes "reassemble p s = Reassembled s'"
  shows "\<exists>d. raw s' = raw s @ d \<and> set (ooo s') \<subseteq> set (map_insert (seq p) (payload p) (ooo s)) \<and>
           next_seq s' = (if next_seq s = 0 \<or> seq p = next_seq s then seq p else next_seq s)
                         + of_nat (length d)"
  using assms
proof (cases rule: reassemble_Reassembled)
  case appended
  let ?t = "s\<lparr>raw := raw s @ payload p, next_seq := seq p + of_nat (length (payload p))\<rparr>"
  obtain d where d: "raw (drain_ooo ?t) = raw ?t @ d"
      "next_seq (drain_ooo ?t) = next_seq ?t + of_nat (length d)"
      "set (ooo (drain_ooo ?t)) \<subseteq> set (ooo ?t)"
    using drain_ooo_extends [of ?t] by blast
  have "set (ooo s) \<subseteq> set (map_insert (seq p) (payload p) (ooo s))"
    by (auto simp: map_insert_def split: option.split)
  with d appended show ?thesis
    by (intro exI [of _ "payload p @ d"]) auto
next
  case buffered
  let ?t = "s\<lparr>ooo := map_insert (seq p) (payload p) (ooo s)\<rparr>"
  obtain d where d: "raw (drain_ooo ?t) = raw ?t @ d"
      "next_seq (drain_ooo ?t) = next_seq ?t + of_nat (length d)"
      "set (ooo (drain_ooo ?t)) \<subseteq> set (ooo ?t)"
    using drain_ooo_extends [of ?t] by blast
  with buffered show ?thesis by auto
qed

lemma reassemble_raw_prefix: "reassemble p s = Reassembled s' \<Longrightarrow> prefix (raw s) (raw s')"
  by (auto dest: reassemble_extends)

section \<open>Invariant lemmas\<close>

lemma stream_inv_empty: "stream_inv empty_stream"
  by (simp add: stream_inv_def empty_stream_def)

lemma stream_inv_drain:
  "distinct (map fst (ooo s)) \<Longrightarrow> stream_inv (drain_ooo s)"
  by (simp add: stream_inv_def drain_ooo_distinct drain_ooo_drained)

text \<open>Every call of the reassembly keeps the invariant.\<close>

lemma reassemble_preserves_inv:
  assumes "stream_inv s" and "reassemble p s = Reassembled s'"
  shows "stream_inv s'"
proof -
  from assms(1) have dist: "distinct (map fst (ooo s))" by (simp add: stream_inv_def)
  from assms(2) show ?thesis
  proof (cases rule: reassemble_Reassembled)
    case appended
    from dist show ?thesis unfolding appended(2) by (intro stream_inv_drain) simp
  next
    case buffered
    from dist show ?thesis unfolding buffered(3)
      by (intro stream_inv_drain) (simp add: distinct_map_insert)
  qed
qed

section \<open>Properties of one segment\<close>

text \<open>C13: the reassembled stream is append-only: no call removes or reorders bytes.\<close>

theorem reassemble_append_only:
  "reassemble p s = Reassembled s' \<Longrightarrow> prefix (raw s) (raw s')"
  by (auto dest: reassemble_extends)

text \<open>
  C14: once a segment has been seen (\<^verbatim>\<open>next_seq != 0\<close>), \<^verbatim>\<open>next_seq\<close> advances by
  exactly the number of bytes appended to the stream, modulo \<open>2^32\<close>.
\<close>

theorem reassemble_advance:
  assumes "next_seq s \<noteq> 0" and "reassemble p s = Reassembled s'"
  shows "next_seq s' = next_seq s + of_nat (length (raw s') - length (raw s))"
proof -
  from reassemble_extends [OF assms(2)] obtain d where
    d: "raw s' = raw s @ d"
       "next_seq s' = (if next_seq s = 0 \<or> seq p = next_seq s then seq p else next_seq s)
                      + of_nat (length d)"
    by blast
  with assms(1) show ?thesis by (auto split: if_splits)
qed

text \<open>
  A segment that starts beyond \<^verbatim>\<open>next_seq\<close> under a new key is not appended: it
  is put in front of the out-of-order map and the stream is unchanged.
\<close>

lemma reassemble_ahead_buffered:
  assumes "stream_inv s" and "next_seq s \<noteq> 0" and "next_seq s < seq p"
    and "map_of (ooo s) (seq p) = None"
  shows "reassemble p s = Reassembled (s\<lparr>ooo := (seq p, payload p) # ooo s\<rparr>)"
proof -
  from assms(1) have none: "map_of (ooo s) (next_seq s) = None" by (simp add: stream_inv_def)
  from assms(3) have "seq p \<noteq> next_seq s" by simp
  with none have "map_of ((seq p, payload p) # ooo s) (next_seq s) = None" by simp
  then have "drain_ooo (s\<lparr>ooo := (seq p, payload p) # ooo s\<rparr>) = s\<lparr>ooo := (seq p, payload p) # ooo s\<rparr>"
    by (intro drain_ooo_stop) simp
  with assms(2-4) show ?thesis by (simp add: reassemble_ahead map_insert_def)
qed

text \<open>
  C15: re-delivering a segment that was just appended is dropped as a retransmission,
  provided the bytes appended by that call do not carry \<^verbatim>\<open>next_seq\<close> across
  \<open>2^32\<close>.
\<close>

theorem reassemble_redelivery_dropped:
  assumes "reassemble p s = Reassembled s'" and "next_seq s = 0 \<or> seq p = next_seq s"
    and "payload p \<noteq> []"
    and "unat (seq p) + (length (raw s') - length (raw s)) < 2 ^ 32"
  shows "reassemble p s' = Retransmission"
proof -
  from reassemble_extends [OF assms(1)] assms(2) obtain d where
    d: "raw s' = raw s @ d" "next_seq s' = seq p + of_nat (length d)"
    by auto
  from assms(1,2) have "s' = drain_ooo (s\<lparr>raw := raw s @ payload p,
                                next_seq := seq p + of_nat (length (payload p))\<rparr>)"
    by (simp add: reassemble_in_order)
  with drain_ooo_extends [of "s\<lparr>raw := raw s @ payload p,
                                next_seq := seq p + of_nat (length (payload p))\<rparr>"] d(1)
  have "length (payload p) \<le> length d" by auto
  moreover from assms(3) have "0 < length (payload p)" by simp
  ultimately have pos: "0 < length d" by linarith
  from assms(4) d(1) have lt: "unat (seq p) + length d < 2 ^ LENGTH(32)" by simp
  from pos lt have "next_seq s' \<noteq> 0" unfolding d(2) by (rule add_of_nat_nonzero)
  moreover from pos lt have "seq p + of_nat 0 < seq p + of_nat (length d)"
    by (rule add_of_nat_less_mono)
  ultimately show ?thesis using d(2) by (simp add: reassemble_behind)
qed

text \<open>
  C16: round trip through the out-of-order map.  A segment that arrives ahead of a gap
  is buffered; when the segment filling the gap arrives, both are appended in stream
  order, \<^verbatim>\<open>next_seq\<close> moves past both, and the map is back to what it was before
  (provided nothing else was buffered right after the segment and no wrap-around).
\<close>

theorem buffer_then_fill_roundtrip:
  assumes inv: "stream_inv s" and nz: "next_seq s \<noteq> 0" and q: "seq q = next_seq s"
    and p: "seq p = next_seq s + of_nat (length (payload q))" and ne: "payload q \<noteq> []"
    and nowrap: "unat (next_seq s) + length (payload q) < 2 ^ 32"
    and fresh: "map_of (ooo s) (seq p) = None"
    and stop: "map_of (ooo s) (seq p + of_nat (length (payload p))) = None"
  shows "\<exists>s1. reassemble p s = Reassembled s1 \<and>
           reassemble q s1 = Reassembled \<lparr>raw = raw s @ payload q @ payload p,
                                          next_seq = seq p + of_nat (length (payload p)), ooo = ooo s\<rparr>"
proof -
  from ne nowrap have "next_seq s + of_nat 0 < next_seq s + of_nat (length (payload q))"
    by (intro add_of_nat_less_mono) simp_all
  with p have lt: "next_seq s < seq p" by simp
  let ?s1 = "s\<lparr>ooo := (seq p, payload p) # ooo s\<rparr>"
  have r1: "reassemble p s = Reassembled ?s1"
    using reassemble_ahead_buffered [OF inv nz lt fresh] .
  let ?t = "?s1\<lparr>raw := raw s @ payload q, next_seq := seq q + of_nat (length (payload q))\<rparr>"
  have "reassemble q ?s1 = Reassembled (drain_ooo ?t)"
    using nz q by (simp add: reassemble_in_order)
  have hit: "map_of (ooo ?t) (next_seq ?t) = Some (payload p)" using p q by simp
  have nt: "next_seq ?t = seq p" using p q by simp
  from fresh have del: "AList.delete (seq p) ((seq p, payload p) # ooo s) = ooo s"
    by (simp add: delete_conv' map_of_eq_None_iff)
  have "drain_ooo ?t = drain_ooo (?t\<lparr>raw := raw ?t @ payload p,
      next_seq := next_seq ?t + of_nat (length (payload p)), ooo := AList.delete (next_seq ?t) (ooo ?t)\<rparr>)"
    by (rule drain_ooo_step [OF hit])
  also have "\<dots> = drain_ooo \<lparr>raw = raw s @ payload q @ payload p,
      next_seq = seq p + of_nat (length (payload p)), ooo = ooo s\<rparr>"
    unfolding nt using del by (cases s) simp
  also have "\<dots> = \<lparr>raw = raw s @ payload q @ payload p,
      next_seq = seq p + of_nat (length (payload p)), ooo = ooo s\<rparr>"
    using stop by (simp add: drain_ooo_stop)
  finally have "reassemble q ?s1 = Reassembled \<lparr>raw = raw s @ payload q @ payload p,
      next_seq = seq p + of_nat (length (payload p)), ooo = ooo s\<rparr>"
    using \<open>reassemble q ?s1 = Reassembled (drain_ooo ?t)\<close> by simp
  with r1 show ?thesis by blast
qed

text \<open>
  C17: progress.  The segment the stream is waiting for (or any segment while no
  baseline is set) is never refused: its bytes are appended to the stream, followed
  by whatever it lets the drain loop release.
\<close>

theorem in_order_segment_progress:
  assumes "next_seq s = 0 \<or> seq p = next_seq s"
  shows "\<exists>s' d. reassemble p s = Reassembled s' \<and> raw s' = raw s @ payload p @ d"
proof -
  let ?t = "s\<lparr>raw := raw s @ payload p, next_seq := seq p + of_nat (length (payload p))\<rparr>"
  have re: "reassemble p s = Reassembled (drain_ooo ?t)"
    using assms by (auto simp: reassemble_in_order)
  from drain_ooo_extends [of ?t] obtain d where "raw (drain_ooo ?t) = raw ?t @ d" by blast
  with re show ?thesis by auto
qed

section \<open>Findings of the reassembly\<close>



text \<open>
  C29: the comparison \<^verbatim>\<open>packet.seq < next_seq\<close> is not wrap-around aware.  A
  segment that starts \<open>d\<close> bytes ahead of \<^verbatim>\<open>next_seq\<close> (counted modulo \<open>2^32\<close>,
  as TCP does) is dropped as a retransmission exactly when the addition wraps past
  \<open>2^32\<close>; otherwise it is buffered.
\<close>

theorem ahead_segment_dropped_iff_wrap:
  assumes nz: "next_seq s \<noteq> 0" and pos: "0 < d" and lt: "d < 2 ^ 32"
  shows "reassemble \<lparr>seq = next_seq s + of_nat d, payload = b\<rparr> s = Retransmission \<longleftrightarrow>
         2 ^ 32 \<le> unat (next_seq s) + d"
proof -
  have "unat (of_nat d :: u32) = d" using lt by (simp add: unat_of_nat)
  with pos have "(of_nat d :: u32) \<noteq> 0" by auto
  then have ne: "next_seq s + of_nat d \<noteq> next_seq s" by simp
  have "next_seq s + of_nat d < next_seq s \<longleftrightarrow> 2 ^ 32 \<le> unat (next_seq s) + d"
    using lt by (simp add: add_of_nat_less_self_iff)
  with nz ne show ?thesis by (simp add: reassemble_def)
qed

section \<open>The scenarios of the specification\<close>


section \<open>Witnesses\<close>

theorem ahead_segment_dropped_iff_wrap_witness:
  "reassemble \<lparr>seq = 5, payload = ''x''\<rparr> \<lparr>raw = ''a'', next_seq = 0xFFFFFFF0, ooo = []\<rparr> = Retransmission"
proof -
  let ?s = "\<lparr>raw = ''a'', next_seq = 0xFFFFFFF0 :: u32, ooo = []\<rparr>"
  have "next_seq ?s \<noteq> 0" "0 < (21::nat)" "(21::nat) < 2 ^ 32" by simp_all
  then have iff: "reassemble \<lparr>seq = next_seq ?s + of_nat 21, payload = ''x''\<rparr> ?s = Retransmission \<longleftrightarrow>
             2 ^ 32 \<le> unat (next_seq ?s) + 21"
    by (rule ahead_segment_dropped_iff_wrap)
  have eq: "next_seq ?s + of_nat 21 = 5" by simp
  have "2 ^ 32 \<le> unat (next_seq ?s) + 21" by simp
  with iff [unfolded eq] show ?thesis by simp
qed

theorem reassemble_append_only_witness:
  "reassemble \<lparr>seq = 1002, payload = ''bbb''\<rparr> \<lparr>raw = ''aa'', next_seq = 1002, ooo = [(1005, ''cc'')]\<rparr>
     = Reassembled \<lparr>raw = ''aabbbcc'', next_seq = 1007, ooo = []\<rparr> \<and> prefix ''aa'' ''aabbbcc''"
proof -
  have h: "reassemble \<lparr>seq = 1002, payload = ''bbb''\<rparr> \<lparr>raw = ''aa'', next_seq = 1002, ooo = [(1005, ''cc'')]\<rparr>
     = Reassembled \<lparr>raw = ''aabbbcc'', next_seq = 1007, ooo = []\<rparr>"
    by (simp add: reassemble_def drain_ooo.simps)
  show ?thesis using h reassemble_append_only [OF h] by simp
qed

text \<open>The advance across \<open>2^32\<close>: from \<open>0xFFFFFFFE\<close>, four bytes lead to 2.\<close>

theorem reassemble_advance_witness:
  "(0xFFFFFFFE :: u32) \<noteq> 0 \<and>
   reassemble \<lparr>seq = 0xFFFFFFFE, payload = ''bbbb''\<rparr> \<lparr>raw = ''aa'', next_seq = 0xFFFFFFFE, ooo = []\<rparr>
     = Reassembled \<lparr>raw = ''aabbbb'', next_seq = 2, ooo = []\<rparr> \<and>
   (2 :: u32) = 0xFFFFFFFE + of_nat (length ''aabbbb'' - length ''aa'')"
proof -
  have h1: "next_seq \<lparr>raw = ''aa'', next_seq = 0xFFFFFFFE :: u32, ooo = []\<rparr> \<noteq> 0" by simp
  have h2: "reassemble \<lparr>seq = 0xFFFFFFFE, payload = ''bbbb''\<rparr> \<lparr>raw = ''aa'', next_seq = 0xFFFFFFFE, ooo = []\<rparr>
     = Reassembled \<lparr>raw = ''aabbbb'', next_seq = 2, ooo = []\<rparr>"
    by (simp add: reassemble_def drain_ooo.simps)
  from reassemble_advance [OF h1 h2] h2 show ?thesis by simp
qed

theorem buffer_then_fill_roundtrip_witness:
  "reassemble \<lparr>seq = 1005, payload = ''cc''\<rparr> \<lparr>raw = ''aa'', next_seq = 1002, ooo = [(2000, ''zz'')]\<rparr>
     = Reassembled \<lparr>raw = ''aa'', next_seq = 1002, ooo = [(1005, ''cc''), (2000, ''zz'')]\<rparr> \<and>
   reassemble \<lparr>seq = 1002, payload = ''bbb''\<rparr> \<lparr>raw = ''aa'', next_seq = 1002, ooo = [(1005, ''cc''), (2000, ''zz'')]\<rparr>
     = Reassembled \<lparr>raw = ''aabbbcc'', next_seq = 1007, ooo = [(2000, ''zz'')]\<rparr>"
proof -
  let ?s = "\<lparr>raw = ''aa'', next_seq = 1002 :: u32, ooo = [(2000 :: u32, ''zz'')]\<rparr>"
  let ?p = "\<lparr>seq = 1005 :: u32, payload = ''cc''\<rparr>"
  let ?q = "\<lparr>seq = 1002 :: u32, payload = ''bbb''\<rparr>"
  have "stream_inv ?s" by (simp add: stream_inv_def)
  moreover have "next_seq ?s \<noteq> 0" "seq ?q = next_seq ?s" "payload ?q \<noteq> []" by simp_all
  moreover have "seq ?p = next_seq ?s + of_nat (length (payload ?q))" by simp
  moreover have "unat (next_seq ?s) + length (payload ?q) < 2 ^ 32" by simp
  moreover have "map_of (ooo ?s) (seq ?p) = None"
    and "map_of (ooo ?s) (seq ?p + of_nat (length (payload ?p))) = None" by simp_all
  ultimately obtain s1 where "reassemble ?p ?s = Reassembled s1"
    and "reassemble ?q s1 = Reassembled \<lparr>raw = ''aabbbcc'', next_seq = 1007, ooo = [(2000, ''zz'')]\<rparr>"
    using buffer_then_fill_roundtrip [of ?s ?q ?p] by auto
  moreover have "reassemble ?p ?s = Reassembled \<lparr>raw = ''aa'', next_seq = 1002, ooo = [(1005, ''cc''), (2000, ''zz'')]\<rparr>"
    by (simp add: reassemble_def drain_ooo.simps map_insert_def)
  ultimately show ?thesis by simp
qed

theorem in_order_segment_progress_witness:
  "\<exists>s' d. reassemble \<lparr>seq = 1002, payload = ''bb''\<rparr> \<lparr>raw = ''aa'', next_seq = 1002, ooo = []\<rparr>
     = Reassembled s' \<and> raw s' = ''aabb'' @ d"
  using in_order_segment_progress [of "\<lparr>raw = ''aa'', next_seq = 1002, ooo = []\<rparr>" "\<lparr>seq = 1002, payload = ''bb''\<rparr>"]
  by simp

theorem reassemble_redelivery_dropped_witness:
  "reassemble \<lparr>seq = 1000, payload = ''ab''\<rparr> empty_stream
     = Reassembled \<lparr>raw = ''ab'', next_seq = 1002, ooo = []\<rparr> \<and>
   reassemble \<lparr>seq = 1000, payload = ''ab''\<rparr> \<lparr>raw = ''ab'', next_seq = 1002, ooo = []\<rparr> = Retransmission"
proof -
  have h1: "reassemble \<lparr>seq = 1000, payload = ''ab''\<rparr> empty_stream
     = Reassembled \<lparr>raw = ''ab'', next_seq = 1002, ooo = []\<rparr>"
    by (simp add: reassemble_def empty_stream_def drain_ooo.simps)
  have h2: "next_seq empty_stream = 0 \<or> seq \<lparr>seq = 1000 :: u32, payload = ''ab''\<rparr> = next_seq empty_stream"
    by (simp add: empty_stream_def)
  have h3: "payload \<lparr>seq = 1000 :: u32, payload = ''ab''\<rparr> \<noteq> []" by simp
  have h4: "unat (seq \<lparr>seq = 1000 :: u32, payload = ''ab''\<rparr>)
      + (length (raw \<lparr>raw = ''ab'', next_seq = 1002 :: u32, ooo = []\<rparr>) - length (raw empty_stream)) < 2 ^ 32"
    by (simp add: empty_stream_def)
  from h1 reassemble_redelivery_dropped [OF h1 h2 h3 h4] show ?thesis by simp
qed

end
