(* ===== verification/Reassembly_Order.thy ===== *)
theory Reassembly_Order
  imports Reassembly
begin

text \<open>
  Order independence of the reassembly.  A direction's byte stream \<open>concat xs\<close>,
  starting at sequence number \<open>b\<close>, is cut into the non-empty segments \<open>xs\<close>;
  segment \<open>i\<close> carries sequence number \<open>b + (bytes before it)\<close>.  When the segment
  at the start of the stream arrives first (the code takes the first segment it sees as
  the baseline), every arrival order of the others reassembles the whole stream and
  leaves the out-of-order map empty, provided no sequence number passes \<open>2^32\<close>.
\<close>

section \<open>Segments of a stream\<close>

definition seg_off :: "bytes list \<Rightarrow> nat \<Rightarrow> nat" where
  "seg_off xs i = length (concat (take i xs))"

definition seg_seq :: "u32 \<Rightarrow> bytes list \<Rightarrow> nat \<Rightarrow> u32" where
  "seg_seq b xs i = b + of_nat (seg_off xs i)"

definition segment :: "u32 \<Rightarrow> bytes list \<Rightarrow> nat \<Rightarrow> packet_info" where
  "segment b xs i = \<lparr>seq = seg_seq b xs i, payload = xs ! i\<rparr>"

text \<open>Non-empty segments whose sequence numbers stay below \<open>2^32\<close>.\<close>

definition tiling :: "u32 \<Rightarrow> bytes list \<Rightarrow> bool" where
  "tiling b xs \<longleftrightarrow> (\<forall>x \<in> set xs. x \<noteq> []) \<and> unat b + length (concat xs) < 2 ^ 32"

text \<open>
  The out-of-order map holds exactly the segments of \<open>S\<close> at or beyond index \<open>m\<close>,
  under their sequence numbers, and nothing else.
\<close>

definition pending_ok :: "u32 \<Rightarrow> bytes list \<Rightarrow> nat set \<Rightarrow> nat \<Rightarrow> stream_state \<Rightarrow> bool" where
  "pending_ok b xs S m s \<longleftrightarrow>
     (\<forall>i < length xs. map_of (ooo s) (seg_seq b xs i) = (if i \<in> S \<and> m \<le> i then Some (xs ! i) else None))
     \<and> (\<forall>q. (\<forall>i < length xs. q \<noteq> seg_seq b xs i) \<longrightarrow> map_of (ooo s) q = None)"

text \<open>
  The state after the segments \<open>S\<close> have arrived: the stream is complete up to the
  first missing segment \<open>k\<close>, and the rest of \<open>S\<close> waits in the map.
\<close>

definition ord_inv :: "u32 \<Rightarrow> bytes list \<Rightarrow> nat set \<Rightarrow> nat \<Rightarrow> stream_state \<Rightarrow> bool" where
  "ord_inv b xs S k s \<longleftrightarrow>
     0 < k \<and> k \<le> length xs \<and> (\<forall>i < k. i \<in> S) \<and> (k < length xs \<longrightarrow> k \<notin> S) \<and>
     raw s = concat (take k xs) \<and> next_seq s = seg_seq b xs k \<and> pending_ok b xs S k s"

section \<open>Offsets and sequence numbers\<close>

lemma seg_off_0 [simp]: "seg_off xs 0 = 0"
  by (simp add: seg_off_def)

lemma seg_off_Suc: "i < length xs \<Longrightarrow> seg_off xs (Suc i) = seg_off xs i + length (xs ! i)"
  by (simp add: seg_off_def take_Suc_conv_app_nth)

lemma seg_off_total: "seg_off xs (length xs) = length (concat xs)"
  by (simp add: seg_off_def)

lemma seg_off_le_total: "seg_off xs i \<le> length (concat xs)"
proof -
  have "concat xs = concat (take i xs) @ concat (drop i xs)"
    by (metis append_take_drop_id concat_append)
  then have "length (concat xs) = seg_off xs i + length (concat (drop i xs))"
    by (metis length_append seg_off_def)
  then show ?thesis by simp
qed

lemma seg_off_strict_mono:
  assumes "tiling b xs" and "i < j" and "j \<le> length xs"
  shows "seg_off xs i < seg_off xs j"
  using assms(2,3)
proof (induction j)
  case 0
  then show ?case by simp
next
  case (Suc j)
  then have j: "j < length xs" by simp
  with assms(1) have "xs ! j \<noteq> []" by (simp add: tiling_def)
  then have step: "seg_off xs j < seg_off xs (Suc j)" by (simp add: seg_off_Suc [OF j])
  show ?case
  proof (cases "i = j")
    case True
    with step show ?thesis by simp
  next
    case False
    with Suc.prems have "i < j" by simp
    with Suc.IH j have "seg_off xs i < seg_off xs j" by simp
    with step show ?thesis by simp
  qed
qed

lemma seg_bound: "tiling b xs \<Longrightarrow> unat b + seg_off xs i < 2 ^ LENGTH(32)"
  using seg_off_le_total [of xs i] by (simp add: tiling_def)

lemma seg_seq_inj:
  assumes t: "tiling b xs" and "i \<le> length xs" and "j \<le> length xs"
    and eq: "seg_seq b xs i = seg_seq b xs j"
  shows "i = j"
proof -
  from eq have "seg_off xs i = seg_off xs j"
    unfolding seg_seq_def by (rule add_of_nat_inj [OF seg_bound [OF t] seg_bound [OF t]])
  with assms(2,3) seg_off_strict_mono [OF t] show ?thesis
    by (metis less_irrefl linorder_neqE_nat)
qed

lemma seg_seq_less:
  assumes t: "tiling b xs" and "i < j" and "j \<le> length xs"
  shows "seg_seq b xs i < seg_seq b xs j"
  unfolding seg_seq_def
  using seg_off_strict_mono [OF assms] seg_bound [OF t, of j] by (rule add_of_nat_less_mono)

lemma seg_seq_nonzero:
  assumes t: "tiling b xs" and "0 < i" and "i \<le> length xs"
  shows "seg_seq b xs i \<noteq> 0"
proof -
  from seg_off_strict_mono [OF t assms(2,3)] have "0 < seg_off xs i" by simp
  then show ?thesis unfolding seg_seq_def by (rule add_of_nat_nonzero [OF _ seg_bound [OF t]])
qed

section \<open>The drain loop and one segment on a tiling\<close>

text \<open>
  The drain loop under the tiling: from a state complete up to index \<open>m\<close>, it appends
  the segments of \<open>S\<close> that follow without a gap and stops at the first index
  \<open>m'\<close> missing from \<open>S\<close> (or at the end).
\<close>

lemma drain_ooo_tiling:
  assumes t: "tiling b xs"
  shows "m \<le> length xs \<Longrightarrow> raw s = concat (take m xs) \<Longrightarrow> next_seq s = seg_seq b xs m \<Longrightarrow>
    pending_ok b xs S m s \<Longrightarrow>
    \<exists>m'. m \<le> m' \<and> m' \<le> length xs \<and> (\<forall>i. m \<le> i \<and> i < m' \<longrightarrow> i \<in> S) \<and>
      (m' < length xs \<longrightarrow> m' \<notin> S) \<and> raw (drain_ooo s) = concat (take m' xs) \<and>
      next_seq (drain_ooo s) = seg_seq b xs m' \<and> pending_ok b xs S m' (drain_ooo s)"
proof (induction s arbitrary: m rule: drain_ooo.induct)
  case (1 s m)
  show ?case
  proof (cases "m < length xs \<and> m \<in> S")
    case True
    then have m: "m < length xs" and mS: "m \<in> S" by simp_all
    from "1.prems"(3,4) m mS have look: "map_of (ooo s) (next_seq s) = Some (xs ! m)"
      by (simp add: pending_ok_def)
    then have ne: "ooo s \<noteq> []" by auto
    let ?t = "s\<lparr>raw := raw s @ xs ! m, next_seq := next_seq s + of_nat (length (xs ! m)),
                ooo := AList.delete (next_seq s) (ooo s)\<rparr>"
    have r: "raw ?t = concat (take (Suc m) xs)"
      using "1.prems"(2) m by (simp add: take_Suc_conv_app_nth)
    have n: "next_seq ?t = seg_seq b xs (Suc m)"
      using "1.prems"(3) m by (simp add: seg_seq_def seg_off_Suc)
    have p: "pending_ok b xs S (Suc m) ?t"
      unfolding pending_ok_def
    proof (intro conjI allI impI)
      fix i assume i: "i < length xs"
      show "map_of (ooo ?t) (seg_seq b xs i) = (if i \<in> S \<and> Suc m \<le> i then Some (xs ! i) else None)"
      proof (cases "i = m")
        case True
        with "1.prems"(3) show ?thesis by (simp add: delete_conv')
      next
        case False
        with seg_seq_inj [OF t, of i m] i m have "seg_seq b xs i \<noteq> seg_seq b xs m" by auto
        with "1.prems"(3,4) i False show ?thesis
          by (auto simp: pending_ok_def delete_conv')
      qed
    next
      fix q assume "\<forall>i < length xs. q \<noteq> seg_seq b xs i"
      with "1.prems"(4) show "map_of (ooo ?t) q = None"
        by (simp add: pending_ok_def delete_conv')
    qed
    from "1.IH" [OF ne look _ r n p] m obtain m' where
      IH: "Suc m \<le> m'" "m' \<le> length xs" "\<forall>i. Suc m \<le> i \<and> i < m' \<longrightarrow> i \<in> S"
        "m' < length xs \<longrightarrow> m' \<notin> S" "raw (drain_ooo ?t) = concat (take m' xs)"
        "next_seq (drain_ooo ?t) = seg_seq b xs m'" "pending_ok b xs S m' (drain_ooo ?t)"
      by auto
    have "\<forall>i. m \<le> i \<and> i < m' \<longrightarrow> i \<in> S"
      using IH(3) mS by (metis Suc_leI le_neq_implies_less)
    with IH show ?thesis unfolding drain_ooo_step [OF look]
      by (intro exI [of _ m']) simp
  next
    case False
    have "map_of (ooo s) (next_seq s) = None"
    proof (cases "m < length xs")
      case True
      with False "1.prems"(3,4) show ?thesis by (simp add: pending_ok_def)
    next
      case False
      with "1.prems"(1) have mn: "m = length xs" by simp
      have "\<forall>i < length xs. next_seq s \<noteq> seg_seq b xs i"
      proof (intro allI impI)
        fix i assume i: "i < length xs"
        show "next_seq s \<noteq> seg_seq b xs i"
        proof
          assume "next_seq s = seg_seq b xs i"
          with "1.prems"(3) have "seg_seq b xs m = seg_seq b xs i" by simp
          with seg_seq_inj [OF t, of m i] mn i show False by simp
        qed
      qed
      with "1.prems"(4) show ?thesis by (simp add: pending_ok_def)
    qed
    then have "drain_ooo s = s" by (rule drain_ooo_stop)
    with "1.prems" False show ?thesis
      by (intro exI [of _ m]) auto
  qed
qed


text \<open>One more segment \<open>j\<close> of the stream, not yet seen, keeps the tiling invariant.\<close>

lemma ord_step:
  assumes t: "tiling b xs" and inv: "ord_inv b xs S k s" and j: "j < length xs" "j \<notin> S"
  shows "\<exists>k' s'. reassemble (segment b xs j) s = Reassembled s' \<and> ord_inv b xs (insert j S) k' s'"
proof -
  from inv have k0: "0 < k" and kn: "k \<le> length xs" and below: "\<forall>i < k. i \<in> S"
    and gap: "k < length xs \<longrightarrow> k \<notin> S" and r: "raw s = concat (take k xs)"
    and ns: "next_seq s = seg_seq b xs k" and p: "pending_ok b xs S k s"
    by (simp_all add: ord_inv_def)
  from below j have kj: "k \<le> j" by (meson not_le)
  have nz: "next_seq s \<noteq> 0" using seg_seq_nonzero [OF t k0 kn] ns by simp
  show ?thesis
  proof (cases "j = k")
    case True
    let ?t = "s\<lparr>raw := raw s @ xs ! k, next_seq := seg_seq b xs k + of_nat (length (xs ! k))\<rparr>"
    have re: "reassemble (segment b xs j) s = Reassembled (drain_ooo ?t)"
      using True ns by (simp add: reassemble_in_order segment_def)
    have "Suc k \<le> length xs" using True j by simp
    moreover have "raw ?t = concat (take (Suc k) xs)"
      using r True j by (simp add: take_Suc_conv_app_nth)
    moreover have "next_seq ?t = seg_seq b xs (Suc k)"
      using True j by (simp add: seg_seq_def seg_off_Suc)
    moreover have "pending_ok b xs (insert k S) (Suc k) ?t"
      using p gap True j by (auto simp: pending_ok_def Suc_le_eq order_less_le)
    ultimately obtain m' where d: "Suc k \<le> m'" "m' \<le> length xs"
        "\<forall>i. Suc k \<le> i \<and> i < m' \<longrightarrow> i \<in> insert k S" "m' < length xs \<longrightarrow> m' \<notin> insert k S"
        "raw (drain_ooo ?t) = concat (take m' xs)" "next_seq (drain_ooo ?t) = seg_seq b xs m'"
        "pending_ok b xs (insert k S) m' (drain_ooo ?t)"
      using drain_ooo_tiling [OF t] by blast
    have "\<forall>i < m'. i \<in> insert k S"
    proof (intro allI impI)
      fix i assume "i < m'"
      with d(3) below show "i \<in> insert k S"
        by (cases "i < k"; cases "i = k") (auto simp: Suc_le_eq)
    qed
    with d have "ord_inv b xs (insert j S) m' (drain_ooo ?t)"
      using True by (simp add: ord_inv_def)
    with re show ?thesis by blast
  next
    case False
    with kj have kj': "k < j" by simp
    have less: "next_seq s < seq (segment b xs j)"
      using seg_seq_less [OF t kj'] j ns by (simp add: segment_def)
    let ?t = "s\<lparr>ooo := map_insert (seg_seq b xs j) (xs ! j) (ooo s)\<rparr>"
    have re: "reassemble (segment b xs j) s = Reassembled (drain_ooo ?t)"
      using reassemble_ahead [OF nz less] by (simp add: segment_def)
    have none: "map_of (ooo s) (seg_seq b xs j) = None"
      using p j by (simp add: pending_ok_def)
    have "pending_ok b xs (insert j S) k ?t"
      unfolding pending_ok_def
    proof (intro conjI allI impI)
      fix i assume i: "i < length xs"
      show "map_of (ooo ?t) (seg_seq b xs i) = (if i \<in> insert j S \<and> k \<le> i then Some (xs ! i) else None)"
      proof (cases "i = j")
        case True
        with none kj show ?thesis by (simp add: map_of_map_insert_None)
      next
        case False
        with seg_seq_inj [OF t, of i j] i j have "seg_seq b xs i \<noteq> seg_seq b xs j" by auto
        with p none i False show ?thesis by (simp add: pending_ok_def map_of_map_insert_None)
      qed
    next
      fix q assume q: "\<forall>i < length xs. q \<noteq> seg_seq b xs i"
      with j have "q \<noteq> seg_seq b xs j" by simp
      with p q none show "map_of (ooo ?t) q = None" by (simp add: pending_ok_def map_of_map_insert_None)
    qed
    moreover have "raw ?t = concat (take k xs)" and "next_seq ?t = seg_seq b xs k"
      using r ns by simp_all
    ultimately obtain m' where d: "k \<le> m'" "m' \<le> length xs"
        "\<forall>i. k \<le> i \<and> i < m' \<longrightarrow> i \<in> insert j S" "m' < length xs \<longrightarrow> m' \<notin> insert j S"
        "raw (drain_ooo ?t) = concat (take m' xs)" "next_seq (drain_ooo ?t) = seg_seq b xs m'"
        "pending_ok b xs (insert j S) m' (drain_ooo ?t)"
      using drain_ooo_tiling [OF t kn] by blast
    have "\<forall>i < m'. i \<in> insert j S" using d(3) below by (metis insertCI not_le)
    with d k0 have "ord_inv b xs (insert j S) m' (drain_ooo ?t)"
      by (simp add: ord_inv_def)
    with re show ?thesis by blast
  qed
qed

text \<open>The first segment of the stream, arriving first, establishes the invariant.\<close>

lemma ord_start:
  assumes t: "tiling b xs" and ne: "xs \<noteq> []"
  shows "\<exists>k s'. reassemble (segment b xs 0) empty_stream = Reassembled s' \<and> ord_inv b xs {0} k s'"
proof -
  let ?t = "empty_stream\<lparr>raw := xs ! 0, next_seq := b + of_nat (length (xs ! 0))\<rparr>"
  have re: "reassemble (segment b xs 0) empty_stream = Reassembled (drain_ooo ?t)"
    by (simp add: reassemble_in_order segment_def seg_seq_def empty_stream_def)
  from ne have l: "0 < length xs" by simp
  have "Suc 0 \<le> length xs" using l by linarith
  moreover have "raw ?t = concat (take (Suc 0) xs)"
    using l by (simp add: empty_stream_def take_Suc_conv_app_nth)
  moreover have "next_seq ?t = seg_seq b xs (Suc 0)"
    using l by (simp add: empty_stream_def seg_seq_def seg_off_Suc)
  moreover have "pending_ok b xs {0} (Suc 0) ?t"
    by (simp add: pending_ok_def empty_stream_def)
  ultimately obtain m' where d: "Suc 0 \<le> m'" "m' \<le> length xs"
      "\<forall>i. Suc 0 \<le> i \<and> i < m' \<longrightarrow> i \<in> {0}" "m' < length xs \<longrightarrow> m' \<notin> {0}"
      "raw (drain_ooo ?t) = concat (take m' xs)" "next_seq (drain_ooo ?t) = seg_seq b xs m'"
      "pending_ok b xs {0} m' (drain_ooo ?t)"
    using drain_ooo_tiling [OF t] by blast
  have "\<forall>i < m'. i \<in> {0}" using d(3) by (metis Suc_leI neq0_conv singletonI)
  with d have "ord_inv b xs {0} m' (drain_ooo ?t)" by (simp add: ord_inv_def)
  with re show ?thesis by blast
qed

text \<open>The remaining segments, in any order, complete the stream.\<close>

lemma ord_run:
  assumes t: "tiling b xs"
  shows "ord_inv b xs S k s \<Longrightarrow> distinct js \<Longrightarrow> set js \<inter> S = {} \<Longrightarrow> S \<union> set js = {..<length xs} \<Longrightarrow>
    reassemble_all (map (segment b xs) js) s
      = \<lparr>raw = concat xs, next_seq = b + of_nat (length (concat xs)), ooo = []\<rparr>"
proof (induction js arbitrary: S k s)
  case Nil
  then have S: "S = {..<length xs}" by simp
  from Nil.prems(1) have kn: "k = length xs"
    using S by (auto simp: ord_inv_def)
  have "map_of (ooo s) = Map.empty"
  proof
    fix q
    show "map_of (ooo s) q = None"
    proof (cases "\<exists>i < length xs. q = seg_seq b xs i")
      case True
      then obtain i where "i < length xs" "q = seg_seq b xs i" by blast
      with Nil.prems(1) kn show ?thesis by (simp add: ord_inv_def pending_ok_def)
    next
      case False
      with Nil.prems(1) show ?thesis by (simp add: ord_inv_def pending_ok_def)
    qed
  qed
  then have "ooo s = []" by (simp add: map_of_empty_iff_Nil)
  with Nil.prems(1) kn show ?case
    by (cases s) (simp add: ord_inv_def seg_seq_def seg_off_total)
next
  case (Cons j js)
  from Cons.prems have j: "j < length xs" "j \<notin> S" by auto
  from ord_step [OF t Cons.prems(1) j] obtain k' s' where
    re: "reassemble (segment b xs j) s = Reassembled s'" and inv': "ord_inv b xs (insert j S) k' s'"
    by blast
  have "reassemble_all (map (segment b xs) js) s'
      = \<lparr>raw = concat xs, next_seq = b + of_nat (length (concat xs)), ooo = []\<rparr>"
    using Cons.prems by (intro Cons.IH [OF inv']) auto
  with re show ?case by simp
qed

text \<open>The whole run, from the first segment, as a helper shared by the order lemmas.\<close>

lemma ord_complete:
  assumes "tiling b xs" and "xs \<noteq> []" and "distinct js" and "set js = {1..<length xs}"
  shows "reassemble_all (map (segment b xs) (0 # js)) empty_stream
           = \<lparr>raw = concat xs, next_seq = b + of_nat (length (concat xs)), ooo = []\<rparr>"
proof -
  from ord_start [OF assms(1,2)] obtain k s' where
    re: "reassemble (segment b xs 0) empty_stream = Reassembled s'" and inv: "ord_inv b xs {0} k s'"
    by blast
  from assms(2) have "{0} \<union> {1..<length xs} = {..<length xs}" by auto
  with assms(3,4) have "reassemble_all (map (segment b xs) js) s'
      = \<lparr>raw = concat xs, next_seq = b + of_nat (length (concat xs)), ooo = []\<rparr>"
    by (intro ord_run [OF assms(1) inv]) auto
  with re show ?thesis by simp
qed

lemma mset_upt_distinct_set:
  "mset js = mset [m..<n] \<Longrightarrow> distinct js \<and> set js = {m..<n}"
  by (metis distinct_upt mset_eq_imp_distinct_iff mset_eq_setD set_upt)

section \<open>Order independence\<close>

text \<open>
  C3: order independence.  Whenever the segment at the start of a stream of non-empty,
  non-overlapping segments arrives first and the stream stays below \<open>2^32\<close>, every
  order of arrival of the remaining segments reassembles exactly the whole stream,
  with \<^verbatim>\<open>next_seq\<close> at its end and the out-of-order map empty.
\<close>

theorem reassembly_order_independent:
  assumes "tiling b xs" and "xs \<noteq> []" and "mset js = mset [1..<length xs]"
  shows "reassemble_all (map (segment b xs) (0 # js)) empty_stream
           = \<lparr>raw = concat xs, next_seq = b + of_nat (length (concat xs)), ooo = []\<rparr>"
  using mset_upt_distinct_set [OF assms(3)] by (intro ord_complete [OF assms(1,2)]) auto

section \<open>Witness\<close>

theorem reassembly_order_independent_witness:
  "reassemble_all (map (segment 100 [''ab'', ''cde'', ''f'']) [0, 2, 1]) empty_stream
     = \<lparr>raw = ''abcdef'', next_seq = 106, ooo = []\<rparr>"
proof -
  have "tiling 100 [''ab'', ''cde'', ''f'']" by (simp add: tiling_def)
  moreover have "[''ab'', ''cde'', ''f''] \<noteq> []" by simp
  moreover have "mset [2, 1] = mset [1..<length [''ab'', ''cde'', ''f'']]" by code_simp
  ultimately show ?thesis using reassembly_order_independent [of 100 "[''ab'', ''cde'', ''f'']" "[2, 1]"]
    by simp
qed

end
