(* ===== verification/Reassembly_Spec.thy ===== *)
theory Reassembly_Spec
  imports Reassembly
begin

text \<open>
  The abstract SegmentBuffer of the specification (sections 3 and 4.1): an explicit
  \<open>baseline_set\<close> flag, the expected sequence number, the contiguous bytes and the
  pending segments as a map.  \<open>absorb\<close> returns the outcome the specification names.
  The code's \<open>stream_state\<close> is related to it by \<open>abs_stream\<close>, which reads the
  code's sentinel \<^verbatim>\<open>next_seq != 0\<close> as the flag; the refinement lemma says when
  one call of the code does what \<open>absorb\<close> specifies.
\<close>

section \<open>The specification\<close>

record seg_buffer =
  baseline_set :: bool
  expected_next :: u32
  contiguous :: bytes
  pending :: "u32 \<rightharpoonup> bytes"

datatype outcome = Appended | BufferedOutOfOrder | DroppedDuplicate

text \<open>
  The drain of the specification: move the pending entry keyed exactly
  \<open>expected_next\<close> into the contiguous bytes until there is none.  The keys are
  32-bit words, so the pending map has a finite domain, whose size decreases.
\<close>

function spec_drain :: "seg_buffer \<Rightarrow> seg_buffer" where
  "spec_drain b =
     (case pending b (expected_next b) of
        None \<Rightarrow> b
      | Some d \<Rightarrow> spec_drain (b\<lparr>contiguous := contiguous b @ d,
                                expected_next := expected_next b + of_nat (length d),
                                pending := (pending b)(expected_next b := None)\<rparr>))"
  by pat_completeness auto
termination
proof (relation "measure (\<lambda>b. card (dom (pending b)))")
  fix b :: seg_buffer and d
  assume "pending b (expected_next b) = Some d"
  then have mem: "expected_next b \<in> dom (pending b)" by auto
  have fin: "finite (dom (pending b))" by simp
  from fin mem have "card (dom (pending b) - {expected_next b}) < card (dom (pending b))"
    by (rule card_Diff1_less)
  then show "(b\<lparr>contiguous := contiguous b @ d, expected_next := expected_next b + of_nat (length d),
                      pending := (pending b)(expected_next b := None)\<rparr>, b)
                   \<in> measure (\<lambda>b. card (dom (pending b)))"
    by simp
qed simp

declare spec_drain.simps [simp del]

definition absorb :: "packet_info \<Rightarrow> seg_buffer \<Rightarrow> outcome \<times> seg_buffer" where
  "absorb p b =
     (if \<not> baseline_set b then
        (Appended, b\<lparr>baseline_set := True, contiguous := contiguous b @ payload p,
                     expected_next := seq p + of_nat (length (payload p))\<rparr>)
      else if seq p = expected_next b then
        (Appended, spec_drain (b\<lparr>contiguous := contiguous b @ payload p,
                                 expected_next := expected_next b + of_nat (length (payload p))\<rparr>))
      else if seq p < expected_next b then (DroppedDuplicate, b)
      else (BufferedOutOfOrder, b\<lparr>pending := (pending b)(seq p \<mapsto> payload p)\<rparr>))"

section \<open>Abstraction of the code's state\<close>

definition abs_buf :: "bool \<Rightarrow> stream_state \<Rightarrow> seg_buffer" where
  "abs_buf bs s = \<lparr>baseline_set = bs, expected_next = next_seq s, contiguous = raw s,
                   pending = map_of (ooo s)\<rparr>"

definition abs_stream :: "stream_state \<Rightarrow> seg_buffer" where
  "abs_stream s = abs_buf (next_seq s \<noteq> 0) s"

section \<open>The drain loops agree\<close>

lemma spec_drain_stop: "pending b (expected_next b) = None \<Longrightarrow> spec_drain b = b"
  by (subst spec_drain.simps) simp

lemma spec_drain_step:
  "pending b (expected_next b) = Some d \<Longrightarrow>
   spec_drain b = spec_drain (b\<lparr>contiguous := contiguous b @ d,
                                expected_next := expected_next b + of_nat (length d),
                                pending := (pending b)(expected_next b := None)\<rparr>)"
  by (subst spec_drain.simps) simp

lemma drain_ooo_refines: "abs_buf bs (drain_ooo s) = spec_drain (abs_buf bs s)"
proof (induction s rule: drain_ooo.induct)
  case (1 s)
  show ?case
  proof (cases "map_of (ooo s) (next_seq s)")
    case None
    then show ?thesis by (simp add: drain_ooo_stop spec_drain_stop abs_buf_def)
  next
    case (Some d)
    then have "ooo s \<noteq> []" by auto
    with "1" Some show ?thesis
      by (simp add: drain_ooo_step [OF Some] spec_drain_step abs_buf_def delete_conv')
  qed
qed

section \<open>Refinement\<close>

lemma pending_insert_compat:
  "map_of m k = None \<or> map_of m k = Some v \<Longrightarrow> map_of (map_insert k v m) = (map_of m)(k \<mapsto> v)"
  by (auto simp: map_of_map_insert map_upd_triv)

text \<open>
  C1: refinement.  One call of the code's reassembly does what the specification's
  \<open>absorb\<close> prescribes, on the abstraction of its state, and drops exactly the segments
  the specification calls duplicates, provided (1) the code's sentinel agrees with the
  flag: the map is empty while \<^verbatim>\<open>next_seq\<close> is 0 and the call does not leave
  \<^verbatim>\<open>next_seq\<close> at 0, and (2) a segment buffered twice carries the same bytes (the
  code keeps the first copy).
\<close>

theorem reassemble_refines_absorb:
  assumes inv: "stream_inv s" and empty0: "next_seq s = 0 \<longrightarrow> ooo s = []"
    and nz: "next_seq (reassembled s (reassemble p s)) \<noteq> 0"
    and compat: "map_of (ooo s) (seq p) = None \<or> map_of (ooo s) (seq p) = Some (payload p)"
  shows "snd (absorb p (abs_stream s)) = abs_stream (reassembled s (reassemble p s)) \<and>
         (fst (absorb p (abs_stream s)) = DroppedDuplicate \<longleftrightarrow> reassemble p s = Retransmission)"
proof (cases "next_seq s = 0")
  case True
  let ?t = "s\<lparr>raw := raw s @ payload p, next_seq := seq p + of_nat (length (payload p))\<rparr>"
  from True empty0 have "ooo s = []" by simp
  then have dr: "drain_ooo ?t = ?t" by (intro drain_ooo_stop) simp
  then have re: "reassemble p s = Reassembled ?t" using True by (simp add: reassemble_in_order)
  with nz have "next_seq ?t \<noteq> 0" by (simp add: reassembled_def)
  with True re show ?thesis
    by (simp add: absorb_def abs_stream_def abs_buf_def reassembled_def)
next
  case False
  note nz0 = False
  show ?thesis
  proof (cases "seq p = next_seq s")
    case True
    let ?t = "s\<lparr>raw := raw s @ payload p, next_seq := seq p + of_nat (length (payload p))\<rparr>"
    have re: "reassemble p s = Reassembled (drain_ooo ?t)" using True by (simp add: reassemble_in_order)
    with nz have "next_seq (drain_ooo ?t) \<noteq> 0" by (simp add: reassembled_def)
    then have "abs_stream (drain_ooo ?t) = spec_drain (abs_buf True ?t)"
      by (simp add: abs_stream_def drain_ooo_refines)
    moreover have "abs_buf True ?t = (abs_stream s)\<lparr>contiguous := contiguous (abs_stream s) @ payload p,
        expected_next := expected_next (abs_stream s) + of_nat (length (payload p))\<rparr>"
      using True nz0 by (simp add: abs_stream_def abs_buf_def)
    ultimately show ?thesis using True nz0 re
      by (simp add: absorb_def abs_stream_def abs_buf_def reassembled_def)
  next
    case False
    note ne = False
    show ?thesis
    proof (cases "seq p < next_seq s")
      case True
      with nz0 show ?thesis
        by (simp add: reassemble_behind absorb_def abs_stream_def abs_buf_def reassembled_def)
    next
      case False
      with ne have gt: "next_seq s < seq p" by simp
      let ?t = "s\<lparr>ooo := map_insert (seq p) (payload p) (ooo s)\<rparr>"
      from inv have "map_of (ooo s) (next_seq s) = None" by (simp add: stream_inv_def)
      with ne have "map_of (ooo ?t) (next_seq ?t) = None"
        by (simp add: map_insert_def split: option.split)
      then have "drain_ooo ?t = ?t" by (rule drain_ooo_stop)
      then have re: "reassemble p s = Reassembled ?t" using reassemble_ahead [OF nz0 gt] by simp
      from compat have "map_of (ooo ?t) = (map_of (ooo s))(seq p \<mapsto> payload p)"
        by (simp add: pending_insert_compat)
      with nz0 ne gt re show ?thesis
        by (simp add: absorb_def abs_stream_def abs_buf_def reassembled_def)
    qed
  qed
qed

theorem reassemble_refines_absorb_witness:
  "snd (absorb \<lparr>seq = 1002, payload = ''bbb''\<rparr>
          (abs_stream \<lparr>raw = ''aa'', next_seq = 1002, ooo = [(1005, ''cc'')]\<rparr>))
     = abs_stream \<lparr>raw = ''aabbbcc'', next_seq = 1007, ooo = []\<rparr>"
proof -
  let ?s = "\<lparr>raw = ''aa'', next_seq = 1002 :: u32, ooo = [(1005 :: u32, ''cc'')]\<rparr>"
  let ?p = "\<lparr>seq = 1002 :: u32, payload = ''bbb''\<rparr>"
  have re: "reassemble ?p ?s = Reassembled \<lparr>raw = ''aabbbcc'', next_seq = 1007, ooo = []\<rparr>"
    by (simp add: reassemble_def drain_ooo.simps)
  have h1: "stream_inv ?s" by (simp add: stream_inv_def)
  have h2: "next_seq ?s = 0 \<longrightarrow> ooo ?s = []" by simp
  have h3: "next_seq (reassembled ?s (reassemble ?p ?s)) \<noteq> 0" using re by (simp add: reassembled_def)
  have h4: "map_of (ooo ?s) (seq ?p) = None \<or> map_of (ooo ?s) (seq ?p) = Some (payload ?p)" by simp
  from reassemble_refines_absorb [OF h1 h2 h3 h4] re show ?thesis by (simp add: reassembled_def)
qed


end
