(* ===== verification/Exchange.thy ===== *)
theory Exchange
  imports Reassembly
begin

text \<open>
  The exchange record \<^verbatim>\<open>custom_parser\<close> (src/custom_parser.cpp) and its interfaces.
  The class keeps, per direction, the reassembly state of the theory Reassembly, the
  raw header block, the body and a completion flag; for the exchange, the URL, the
  method, the host, the current header field name and the gzip flag.  It owns one
  \<^verbatim>\<open>http_parser\<close>, shared by both directions.

  The http_parser library is external.  Its contract, as far as the class uses it, is
  the record \<open>token_parser\<close>: an initial state per parser type, an execute function
  that consumes a chunk and reports the callbacks it makes, in order, as
  \<open>parser_event\<close>s (with the offsets into the chunk that the C callbacks receive as
  pointers, and the \<^verbatim>\<open>parser->method\<close> and \<^verbatim>\<open>parser->nread\<close> they read), and
  the errno test.  The callbacks of the class all return 0 and never read the parser's
  internal state, so running them after execute, in the reported order, is what the
  interleaved C execution computes.  The effects of a call (the bytes given to the
  parser, output and termination) are a list of \<open>effect\<close>s.
\<close>

section \<open>Types\<close>

text \<open>\<^verbatim>\<open>enum http_parser_type\<close> of http_parser.h.\<close>

datatype http_parser_type = HTTP_REQUEST | HTTP_RESPONSE | HTTP_BOTH

datatype parser_event =
    On_url nat nat bytes
  | On_header_field nat nat
  | On_header_value nat nat
  | On_headers_complete nat
  | On_body nat nat
  | On_message_complete

record 'ps token_parser =
  tp_init :: "http_parser_type \<Rightarrow> 'ps"
  tp_execute :: "'ps \<Rightarrow> bytes \<Rightarrow> 'ps \<times> parser_event list \<times> nat"
  tp_errno_ok :: "'ps \<Rightarrow> bool"

text \<open>\<^verbatim>\<open>struct http_parser\<close>: its \<^verbatim>\<open>type\<close> field and the library's internal state.\<close>

record 'ps http_parser =
  ptype :: http_parser_type
  pstate :: 'ps

record 'ps custom_parser =
  parser :: "'ps http_parser"
  streams :: "http_parser_type \<Rightarrow> stream_state"
  url :: bytes
  method_name :: bytes
  host :: bytes
  temp_header_field :: bytes
  header :: "http_parser_type \<Rightarrow> bytes"
  body :: "http_parser_type \<Rightarrow> bytes"
  complete_flag :: "http_parser_type \<Rightarrow> bool"
  gzip_flag :: bool
  address :: "http_parser_type \<Rightarrow> bytes"

datatype effect =
    Parser_execute http_parser_type bytes
  | Stdout bytes
  | Stderr bytes
  | File_append bytes bytes
  | Exit int

datatype parse_error = Null_dereference

section \<open>Colour codes of util.h\<close>

definition ANSI_COLOR_RED :: bytes where "ANSI_COLOR_RED = CHR 0x1B # ''[31m''"
definition ANSI_COLOR_GREEN :: bytes where "ANSI_COLOR_GREEN = CHR 0x1B # ''[32m''"
definition ANSI_COLOR_BLUE :: bytes where "ANSI_COLOR_BLUE = CHR 0x1B # ''[34m''"
definition ANSI_COLOR_CYAN :: bytes where "ANSI_COLOR_CYAN = CHR 0x1B # ''[36m''"
definition ANSI_COLOR_RESET :: bytes where "ANSI_COLOR_RESET = CHR 0x1B # ''[0m''"

section \<open>Construction\<close>

definition http_parser_init :: "'ps token_parser \<Rightarrow> http_parser_type \<Rightarrow> 'ps http_parser" where
  "http_parser_init tp t = \<lparr>ptype = t, pstate = tp_init tp t\<rparr>"

text \<open>The constructor, lines 4--19; the strings start empty, \<^verbatim>\<open>next_seq\<close> at 0.\<close>

definition custom_parser_init :: "'ps token_parser \<Rightarrow> 'ps custom_parser" where
  "custom_parser_init tp =
     \<lparr>parser = http_parser_init tp HTTP_REQUEST, streams = (\<lambda>_. empty_stream),
      url = [], method_name = [], host = [], temp_header_field = [],
      header = (\<lambda>_. []), body = (\<lambda>_. []), complete_flag = (\<lambda>_. False),
      gzip_flag = False, address = (\<lambda>_. [])\<rparr>"

definition get_response_body :: "'ps custom_parser \<Rightarrow> bytes" where
  "get_response_body s = body s HTTP_RESPONSE"

definition set_addr :: "bytes \<Rightarrow> bytes \<Rightarrow> 'ps custom_parser \<Rightarrow> 'ps custom_parser" where
  "set_addr src dst s = s\<lparr>address := ((address s)(HTTP_REQUEST := src))(HTTP_RESPONSE := dst)\<rparr>"

text \<open>
  A stub token parser that consumes every chunk and reports no callback: the instance
  the closed examples below use where the parser's behaviour does not matter.
\<close>

definition null_token_parser :: "unit token_parser" where
  "null_token_parser = \<lparr>tp_init = (\<lambda>_. ()), tp_execute = (\<lambda>_ c. ((), [], length c)),
                         tp_errno_ok = (\<lambda>_. True)\<rparr>"

text \<open>
  A scripted token parser: its state is the list of callback batches still to
  report, one batch per call of execute, which consumes the whole chunk.
\<close>

definition scripted_token_parser :: "parser_event list list \<Rightarrow> parser_event list list token_parser" where
  "scripted_token_parser script =
     \<lparr>tp_init = (\<lambda>_. script),
      tp_execute = (\<lambda>st c. case st of [] \<Rightarrow> ([], [], length c) | evs # st' \<Rightarrow> (st', evs, length c)),
      tp_errno_ok = (\<lambda>_. True)\<rparr>"

text \<open>The two directions that own an entry of the per-direction arrays.\<close>

definition is_direction :: "http_parser_type \<Rightarrow> bool" where
  "is_direction t \<longleftrightarrow> t = HTTP_REQUEST \<or> t = HTTP_RESPONSE"

lemma is_direction_simps [simp]:
  "is_direction HTTP_REQUEST" "is_direction HTTP_RESPONSE" "\<not> is_direction HTTP_BOTH"
  by (simp_all add: is_direction_def)

end
