(* ===== verification/Callbacks.thy ===== *)
theory Callbacks
  imports Exchange
begin

text \<open>
  The six static callbacks of \<^verbatim>\<open>custom_parser\<close> (lines 70--133) and the
  \<^verbatim>\<open>settings\<close> table that the constructor installs (lines 12--18).  A callback
  receives the chunk given to \<^verbatim>\<open>http_parser_execute\<close> and an offset and length into
  it (the C pointer \<^verbatim>\<open>at\<close> and \<^verbatim>\<open>length\<close>); \<^verbatim>\<open>parser->type\<close> is the direction
  \<open>t\<close>.  \<^verbatim>\<open>on_message_complete\<close> calls the external \<^verbatim>\<open>gzip_decompress\<close>, the
  parameter \<open>dec\<close> (\<open>None\<close> when it returns false).
\<close>

unbundle bit_operations_syntax

section \<open>Callbacks\<close>

definition slice :: "bytes \<Rightarrow> nat \<Rightarrow> nat \<Rightarrow> bytes" where
  "slice chunk off len = take len (drop off chunk)"

text \<open>Lines 80--84: an ASCII capital has bit 5 flipped.\<close>

definition lower_ascii :: "char \<Rightarrow> char" where
  "lower_ascii c = (if 65 \<le> (of_char c :: nat) \<and> (of_char c :: nat) \<le> 90
                    then char_of ((of_char c :: nat) XOR 0x20) else c)"

definition on_url :: "bytes \<Rightarrow> nat \<Rightarrow> nat \<Rightarrow> bytes \<Rightarrow> 'ps custom_parser \<Rightarrow> 'ps custom_parser" where
  "on_url chunk off len m s = s\<lparr>url := slice chunk off len, method_name := m\<rparr>"

definition on_header_field :: "bytes \<Rightarrow> nat \<Rightarrow> nat \<Rightarrow> 'ps custom_parser \<Rightarrow> 'ps custom_parser" where
  "on_header_field chunk off len s = s\<lparr>temp_header_field := map lower_ascii (slice chunk off len)\<rparr>"

text \<open>
  Lines 88--101.  \<^verbatim>\<open>std::strstr(at, "gzip")\<close> reads from \<^verbatim>\<open>at\<close> up to the next NUL
  byte, which is the end of the chunk (the terminator of \<^verbatim>\<open>raw\<close>), not the end of the
  value.
\<close>

definition on_header_value ::
  "http_parser_type \<Rightarrow> bytes \<Rightarrow> nat \<Rightarrow> nat \<Rightarrow> 'ps custom_parser \<Rightarrow> 'ps custom_parser" where
  "on_header_value t chunk off len s =
     (if t = HTTP_RESPONSE then
        (if temp_header_field s = ''content-encoding'' \<and>
            strstr_found (c_string (drop off chunk)) ''gzip''
         then s\<lparr>gzip_flag := True\<rparr> else s)
      else (if temp_header_field s = ''host'' then s\<lparr>host := slice chunk off len\<rparr> else s))"

text \<open>Lines 103--109: \<^verbatim>\<open>raw[type].substr(0, parser->nread)\<close>.\<close>

definition on_headers_complete :: "http_parser_type \<Rightarrow> nat \<Rightarrow> 'ps custom_parser \<Rightarrow> 'ps custom_parser" where
  "on_headers_complete t nread s =
     (if is_direction t then s\<lparr>header := (header s)(t := take nread (raw (streams s t)))\<rparr> else s)"

definition on_body :: "http_parser_type \<Rightarrow> bytes \<Rightarrow> nat \<Rightarrow> nat \<Rightarrow> 'ps custom_parser \<Rightarrow> 'ps custom_parser" where
  "on_body t chunk off len s =
     (if is_direction t then s\<lparr>body := (body s)(t := body s t @ slice chunk off len)\<rparr> else s)"

text \<open>
  Lines 119--133.  The decompression runs whenever \<^verbatim>\<open>gzip_flag\<close> is set, whichever
  direction completed, on the response body.
\<close>

definition decompress_error_msg :: bytes where
  "decompress_error_msg = ANSI_COLOR_RED @ ''[decompress error]'' @ ANSI_COLOR_RESET @ ''\<newline>''"

definition on_message_complete ::
  "(bytes \<Rightarrow> bytes option) \<Rightarrow> http_parser_type \<Rightarrow> 'ps custom_parser \<Rightarrow> 'ps custom_parser \<times> effect list" where
  "on_message_complete dec t s =
     (let s1 = (if is_direction t then s\<lparr>complete_flag := (complete_flag s)(t := True)\<rparr> else s) in
      if gzip_flag s1 then
        (case dec (body s1 HTTP_RESPONSE) of
           Some nb \<Rightarrow> (s1\<lparr>body := (body s1)(HTTP_RESPONSE := nb)\<rparr>, [])
         | None \<Rightarrow> (s1, [Stderr decompress_error_msg]))
      else (s1, []))"

section \<open>The settings table and a run of callbacks\<close>

fun callback ::
  "(bytes \<Rightarrow> bytes option) \<Rightarrow> http_parser_type \<Rightarrow> bytes \<Rightarrow> 'ps custom_parser \<Rightarrow> parser_event
   \<Rightarrow> 'ps custom_parser \<times> effect list" where
  "callback dec t chunk s (On_url off len m) = (on_url chunk off len m s, [])"
| "callback dec t chunk s (On_header_field off len) = (on_header_field chunk off len s, [])"
| "callback dec t chunk s (On_header_value off len) = (on_header_value t chunk off len s, [])"
| "callback dec t chunk s (On_headers_complete nread) = (on_headers_complete t nread s, [])"
| "callback dec t chunk s (On_body off len) = (on_body t chunk off len s, [])"
| "callback dec t chunk s On_message_complete = on_message_complete dec t s"

fun run_callbacks ::
  "(bytes \<Rightarrow> bytes option) \<Rightarrow> http_parser_type \<Rightarrow> bytes \<Rightarrow> 'ps custom_parser \<Rightarrow> parser_event list
   \<Rightarrow> 'ps custom_parser \<times> effect list" where
  "run_callbacks dec t chunk s [] = (s, [])"
| "run_callbacks dec t chunk s (e # es) =
     (let (s1, o1) = callback dec t chunk s e; (s2, o2) = run_callbacks dec t chunk s1 es
      in (s2, o1 @ o2))"

text \<open>The reference lower-casing of the specification: add 32 to a capital.\<close>

definition tolower_ref :: "char \<Rightarrow> char" where
  "tolower_ref c = (if 65 \<le> (of_char c :: nat) \<and> (of_char c :: nat) \<le> 90
                    then char_of (of_char c + (32 :: nat)) else c)"

definition is_upper :: "char \<Rightarrow> bool" where
  "is_upper c \<longleftrightarrow> 65 \<le> (of_char c :: nat) \<and> (of_char c :: nat) \<le> 90"

section \<open>Frame lemmas: what the callbacks leave alone\<close>

lemma callback_frame:
  "streams (fst (callback dec t chunk s e)) = streams s \<and>
   parser (fst (callback dec t chunk s e)) = parser s \<and>
   address (fst (callback dec t chunk s e)) = address s"
  by (cases e) (auto simp: on_url_def on_header_field_def on_header_value_def
      on_headers_complete_def on_body_def on_message_complete_def Let_def split: option.split)

lemma callback_effects: "set (snd (callback dec t chunk s e)) \<subseteq> {Stderr decompress_error_msg}"
  by (cases e) (auto simp: on_message_complete_def Let_def split: option.split)

lemma run_callbacks_frame:
  "streams (fst (run_callbacks dec t chunk s es)) = streams s \<and>
   parser (fst (run_callbacks dec t chunk s es)) = parser s \<and>
   address (fst (run_callbacks dec t chunk s es)) = address s \<and>
   set (snd (run_callbacks dec t chunk s es)) \<subseteq> {Stderr decompress_error_msg}"
proof (induction es arbitrary: s)
  case Nil
  then show ?case by simp
next
  case (Cons e es)
  obtain s1 o1 where c: "callback dec t chunk s e = (s1, o1)" by fastforce
  from callback_frame [of dec t chunk s e] callback_effects [of dec t chunk s e] c Cons.IH [of s1]
  show ?case by (auto split: prod.split)
qed

section \<open>Lower-casing\<close>

lemma xor32_capitals: "\<forall>n \<in> set [65..<91]. (n::nat) XOR 32 = n + 32"
  by code_simp

lemma lower_ascii_tolower_ref: "lower_ascii c = tolower_ref c"
proof (cases "is_upper c")
  case True
  then have "(of_char c :: nat) \<in> {65..<91}" by (simp add: is_upper_def)
  then have "(of_char c :: nat) \<in> set [65..<91]" by (simp only: set_upt)
  with xor32_capitals have "(of_char c :: nat) XOR 32 = of_char c + 32" by blast
  with True show ?thesis by (simp add: lower_ascii_def tolower_ref_def is_upper_def)
next
  case False
  then show ?thesis by (simp only: lower_ascii_def tolower_ref_def is_upper_def if_False)
qed

lemma tolower_ref_not_upper: "\<not> is_upper (tolower_ref c)"
proof (cases "is_upper c")
  case True
  then have "(of_char c :: nat) + 32 < 256" by (simp add: is_upper_def)
  then have "(of_char (char_of (of_char c + (32::nat))) :: nat) = of_char c + 32"
    by (simp add: of_char_of)
  with True show ?thesis by (simp add: tolower_ref_def is_upper_def)
next
  case False
  then show ?thesis by (simp only: tolower_ref_def is_upper_def if_False) simp
qed

text \<open>
  C9: \<^verbatim>\<open>on_header_field\<close> stores the field name lower-cased: the bit flip of the
  code equals the reference lower-casing (add 32 to an ASCII capital), and no capital
  remains.
\<close>

theorem on_header_field_lowercase:
  "temp_header_field (on_header_field chunk off len s) = map tolower_ref (slice chunk off len) \<and>
   (\<forall>c \<in> set (temp_header_field (on_header_field chunk off len s)). \<not> is_upper c)"
  by (simp add: on_header_field_def lower_ascii_tolower_ref tolower_ref_not_upper)

theorem on_header_field_lowercase_witness:
  "temp_header_field (on_header_field ''Content-Encoding: gzip'' 0 16 (custom_parser_init null_token_parser))
     = ''content-encoding''"
  using on_header_field_lowercase [of "''Content-Encoding: gzip''" 0 16 "custom_parser_init null_token_parser"]
  by (simp add: slice_def) code_simp


section \<open>Header values\<close>

lemma c_string_append_no_nul:
  "CHR 0x00 \<notin> set v \<Longrightarrow> c_string (v @ w) = v @ c_string w"
  by (induction v) (auto simp: c_string_def)

text \<open>
  C20: a response header \<^verbatim>\<open>Content-Encoding\<close> whose value contains \<^verbatim>\<open>gzip\<close>
  (and no NUL byte) sets the gzip flag.
\<close>

theorem on_header_value_gzip:
  assumes "temp_header_field s = ''content-encoding''"
    and "CHR 0x00 \<notin> set (slice chunk off len)" and "sublist ''gzip'' (slice chunk off len)"
  shows "gzip_flag (on_header_value HTTP_RESPONSE chunk off len s)"
proof -
  have split: "drop off chunk = slice chunk off len @ drop len (drop off chunk)"
    by (metis append_take_drop_id slice_def)
  have "c_string (drop off chunk) = slice chunk off len @ c_string (drop len (drop off chunk))"
    by (subst split, rule c_string_append_no_nul [OF assms(2)])
  moreover have "sublist (slice chunk off len) (slice chunk off len @ c_string (drop len (drop off chunk)))"
    by (rule sublist_append_rightI)
  ultimately have "sublist ''gzip'' (c_string (drop off chunk))"
    using assms(3) by (metis sublist_order.order.trans)
  then have "strstr_found (c_string (drop off chunk)) ''gzip''"
    by (simp only: strstr_found_sublist)
  with assms(1) show ?thesis
    unfolding on_header_value_def by simp
qed

theorem on_header_value_gzip_witness:
  "gzip_flag (on_header_value HTTP_RESPONSE ''Content-Encoding: x-gzip'' 18 6
     ((custom_parser_init null_token_parser)\<lparr>temp_header_field := ''content-encoding''\<rparr>))"
proof -
  have "CHR 0x00 \<notin> set (slice ''Content-Encoding: x-gzip'' 18 6)" by (simp add: slice_def)
  moreover have "sublist ''gzip'' (slice ''Content-Encoding: x-gzip'' 18 6)"
    unfolding slice_def by code_simp
  ultimately show ?thesis
    using on_header_value_gzip [of "(custom_parser_init null_token_parser)\<lparr>temp_header_field := ''content-encoding''\<rparr>"]
    by simp
qed



text \<open>C21: a request \<^verbatim>\<open>Host\<close> header value becomes the exchange's host.\<close>

theorem on_header_value_host:
  "temp_header_field s = ''host'' \<Longrightarrow>
   host (on_header_value HTTP_REQUEST chunk off len s) = slice chunk off len"
  by (simp add: on_header_value_def)

theorem on_header_value_host_witness:
  "host (on_header_value HTTP_REQUEST ''Host: example.org'' 6 11
     ((custom_parser_init null_token_parser)\<lparr>temp_header_field := ''host''\<rparr>)) = ''example.org''"
  using on_header_value_host [of "(custom_parser_init null_token_parser)\<lparr>temp_header_field := ''host''\<rparr>"
      "''Host: example.org''" 6 11]
  by (simp add: slice_def)

section \<open>Message completion and decompression\<close>

text \<open>
  C10: completing a message with the gzip flag set replaces the response body by its
  decompression when \<^verbatim>\<open>gzip_decompress\<close> succeeds, and marks the direction complete.
\<close>

theorem on_message_complete_decompresses:
  assumes "gzip_flag s" and "is_direction t" and "dec (body s HTTP_RESPONSE) = Some nb"
  shows "on_message_complete dec t s =
           (s\<lparr>complete_flag := (complete_flag s)(t := True),
              body := (body s)(HTTP_RESPONSE := nb)\<rparr>, [])"
  using assms by (simp add: on_message_complete_def)

theorem on_message_complete_decompresses_witness:
  "on_message_complete (\<lambda>b. Some (rev b)) HTTP_RESPONSE
     ((custom_parser_init null_token_parser)\<lparr>gzip_flag := True, body := (\<lambda>_. ''zg'')\<rparr>)
   = ((custom_parser_init null_token_parser)\<lparr>gzip_flag := True, body := (\<lambda>_. ''zg''),
        complete_flag := (\<lambda>_. False)(HTTP_RESPONSE := True),
        body := (\<lambda>_. ''zg'')(HTTP_RESPONSE := ''gz'')\<rparr>, [])"
proof -
  let ?s = "(custom_parser_init null_token_parser)\<lparr>gzip_flag := True, body := (\<lambda>_. ''zg'')\<rparr>"
  have "gzip_flag ?s" and "is_direction HTTP_RESPONSE"
    and "(\<lambda>b. Some (rev b)) (body ?s HTTP_RESPONSE) = Some ''gz''" by simp_all
  from on_message_complete_decompresses [where dec = "\<lambda>b. Some (rev b)", OF this] show ?thesis
    by (simp add: custom_parser_init_def)
qed

text \<open>
  C22: when \<^verbatim>\<open>gzip_decompress\<close> fails, the compressed body is kept, the direction is
  still marked complete and the diagnostic \<^verbatim>\<open>[decompress error]\<close> goes to standard
  error.
\<close>

theorem on_message_complete_decompress_error:
  assumes "gzip_flag s" and "is_direction t" and "dec (body s HTTP_RESPONSE) = None"
  shows "on_message_complete dec t s =
           (s\<lparr>complete_flag := (complete_flag s)(t := True)\<rparr>, [Stderr decompress_error_msg])"
  using assms by (simp add: on_message_complete_def)

theorem on_message_complete_decompress_error_witness:
  "on_message_complete (\<lambda>_. None) HTTP_RESPONSE
     ((custom_parser_init null_token_parser)\<lparr>gzip_flag := True\<rparr>)
   = ((custom_parser_init null_token_parser)\<lparr>gzip_flag := True,
        complete_flag := (\<lambda>_. False)(HTTP_RESPONSE := True)\<rparr>, [Stderr decompress_error_msg])"
proof -
  let ?s = "(custom_parser_init null_token_parser)\<lparr>gzip_flag := True\<rparr>"
  have "gzip_flag ?s" and "is_direction HTTP_RESPONSE"
    and "(\<lambda>_. None) (body ?s HTTP_RESPONSE) = (None :: bytes option)" by simp_all
  from on_message_complete_decompress_error [where dec = "\<lambda>_. None", OF this] show ?thesis
    by (simp add: custom_parser_init_def)
qed

text \<open>
  C37: decompression is not confined to the response.  Once the gzip flag is set, a
  request completing after the response (the next request on a kept-alive connection)
  decompresses the already decompressed response body a second time.
\<close>

theorem request_completion_decompresses_again:
  assumes "gzip_flag s" and "dec (body s HTTP_RESPONSE) = Some b1" and "dec b1 = Some b2"
  shows "body (fst (on_message_complete dec HTTP_REQUEST
                 (fst (on_message_complete dec HTTP_RESPONSE s)))) HTTP_RESPONSE = b2"
  using assms by (simp add: on_message_complete_def)

theorem request_completion_decompresses_again_witness:
  "body (fst (on_message_complete (\<lambda>b. Some (drop 1 b)) HTTP_REQUEST
           (fst (on_message_complete (\<lambda>b. Some (drop 1 b)) HTTP_RESPONSE
              ((custom_parser_init null_token_parser)\<lparr>gzip_flag := True, body := (\<lambda>_. ''xyz'')\<rparr>)))))
     HTTP_RESPONSE = ''z''"
proof -
  let ?s = "(custom_parser_init null_token_parser)\<lparr>gzip_flag := True, body := (\<lambda>_. ''xyz'')\<rparr>"
  have "gzip_flag ?s" and "(\<lambda>b. Some (drop 1 b)) (body ?s HTTP_RESPONSE) = Some ''yz''"
    and "(\<lambda>b. Some (drop 1 b)) ''yz'' = Some ''z''" by simp_all
  from request_completion_decompresses_again [where dec = "\<lambda>b. Some (drop 1 b)", OF this]
  show ?thesis .
qed

end
