(* ===== verification/Parse.thy ===== *)
theory Parse
  imports Callbacks
begin

text \<open>
  \<^verbatim>\<open>custom_parser::parse\<close> (lines 21--59): the whole handler for one captured
  segment of direction \<open>t\<close>.  The shared \<^verbatim>\<open>http_parser\<close> is re-initialised when
  the previous call was for the other direction (lines 22--24); the direction's stream
  is reassembled (theory Reassembly); the bytes that became contiguous, and only
  those, are given to the token parser (lines 54--56), whose callbacks update the
  record (theory Callbacks).  The result is \<^verbatim>\<open>parse\<close>'s boolean with the new state
  and the effects; the dereference of \<^verbatim>\<open>str == NULL\<close> at line 54 for
  \<^verbatim>\<open>HTTP_BOTH\<close> is the error \<open>Null_dereference\<close>.  \<open>parse_run\<close> is a
  sequence of calls; \<open>reachable\<close> the states the object's interface can reach, all of
  which satisfy the invariant \<open>exchange_inv\<close>.
\<close>

section \<open>The handler\<close>

definition parse ::
  "'ps token_parser \<Rightarrow> (bytes \<Rightarrow> bytes option) \<Rightarrow> packet_info \<Rightarrow> http_parser_type \<Rightarrow>
   'ps custom_parser \<Rightarrow> parse_error + (bool \<times> 'ps custom_parser \<times> effect list)" where
  "parse tp dec pkt t s =
     (let s0 = (if ptype (parser s) \<noteq> t then s\<lparr>parser := http_parser_init tp t\<rparr> else s);
          pt = ptype (parser s0) in
      if is_direction pt then
        (let orig_size = length (raw (streams s0 pt)) in
         case reassemble pkt (streams s0 pt) of
           Retransmission \<Rightarrow> Inr (True, s0, [])
         | Reassembled st \<Rightarrow>
             (let s1 = s0\<lparr>streams := (streams s0)(pt := st)\<rparr> in
              if orig_size < length (raw st) then
                (let chunk = drop orig_size (raw st);
                     (ps', evs, n) = tp_execute tp (pstate (parser s1)) chunk;
                     s2 = s1\<lparr>parser := (parser s1)\<lparr>pstate := ps'\<rparr>\<rparr>;
                     (s3, outs) = run_callbacks dec pt chunk s2 evs
                 in Inr (0 < n \<and> tp_errno_ok tp ps', s3, Parser_execute pt chunk # outs))
              else Inr (True, s1, [])))
      else Inl Null_dereference)"

text \<open>The bytes an effect list gave to the token parser for direction \<open>t\<close>.\<close>

fun fed_bytes :: "http_parser_type \<Rightarrow> effect list \<Rightarrow> bytes" where
  "fed_bytes t [] = []"
| "fed_bytes t (Parser_execute t' c # es) = (if t' = t then c else []) @ fed_bytes t es"
| "fed_bytes t (_ # es) = fed_bytes t es"

text \<open>
  Successive calls of \<^verbatim>\<open>parse\<close> on one exchange, as the capture loop makes them;
  the first error stops the run.
\<close>

fun parse_run ::
  "'ps token_parser \<Rightarrow> (bytes \<Rightarrow> bytes option) \<Rightarrow> (packet_info \<times> http_parser_type) list \<Rightarrow>
   'ps custom_parser \<Rightarrow> parse_error + ('ps custom_parser \<times> effect list)" where
  "parse_run tp dec [] s = Inr (s, [])"
| "parse_run tp dec ((p, t) # ps) s =
     (case parse tp dec p t s of
        Inl e \<Rightarrow> Inl e
      | Inr (_, s1, o1) \<Rightarrow>
          (case parse_run tp dec ps s1 of Inl e \<Rightarrow> Inl e | Inr (s2, o2) \<Rightarrow> Inr (s2, o1 @ o2)))"

text \<open>
  A stub token parser whose state counts the bytes it has consumed since it was
  initialised, reporting no callback: it makes a re-initialisation visible.
\<close>

definition counting_token_parser :: "nat token_parser" where
  "counting_token_parser = \<lparr>tp_init = (\<lambda>_. 0), tp_execute = (\<lambda>k c. (k + length c, [], length c)),
                             tp_errno_ok = (\<lambda>_. True)\<rparr>"

text \<open>
  A stub token parser that enters its error state on the byte \<open>!\<close> and, as
  http_parser does, consumes nothing once its errno is set.
\<close>

definition failing_token_parser :: "bool token_parser" where
  "failing_token_parser =
     \<lparr>tp_init = (\<lambda>_. False),
      tp_execute = (\<lambda>failed c. if failed then (True, [], 0) else (CHR ''!'' \<in> set c, [], length c)),
      tp_errno_ok = (\<lambda>failed. \<not> failed)\<rparr>"

section \<open>Reachable exchanges\<close>

text \<open>
  The states a \<^verbatim>\<open>custom_parser\<close> object can reach through its public interface:
  the constructor, then any sequence of \<^verbatim>\<open>parse\<close> calls that return (a call that
  dereferences NULL does not) and \<^verbatim>\<open>set_addr\<close> calls.
\<close>

inductive reachable :: "'ps token_parser \<Rightarrow> (bytes \<Rightarrow> bytes option) \<Rightarrow> 'ps custom_parser \<Rightarrow> bool"
  for tp dec where
  reach_init: "reachable tp dec (custom_parser_init tp)"
| reach_parse: "reachable tp dec s \<Longrightarrow> parse tp dec p t s = Inr (r, s', effs) \<Longrightarrow> reachable tp dec s'"
| reach_set_addr: "reachable tp dec s \<Longrightarrow> reachable tp dec (set_addr a b s)"

text \<open>
  The typing invariant of the record: the shared parser is set up for one of the two
  directions, every direction's reassembly state satisfies \<open>stream_inv\<close>, and the
  captured header block of each direction is a prefix of its reassembled stream.
\<close>

definition exchange_inv :: "'ps custom_parser \<Rightarrow> bool" where
  "exchange_inv s \<longleftrightarrow> is_direction (ptype (parser s)) \<and>
     list_all (\<lambda>t. stream_inv (streams s t) \<and> prefix (header s t) (raw (streams s t)))
       [HTTP_REQUEST, HTTP_RESPONSE, HTTP_BOTH]"

section \<open>Callbacks on the other direction\<close>

lemma callback_other_direction:
  assumes "t' \<noteq> t"
  shows "header (fst (callback dec t chunk s e)) t' = header s t' \<and>
         complete_flag (fst (callback dec t chunk s e)) t' = complete_flag s t' \<and>
         (t' \<noteq> HTTP_RESPONSE \<longrightarrow> body (fst (callback dec t chunk s e)) t' = body s t')"
  using assms
  by (cases e) (auto simp: on_url_def on_header_field_def on_header_value_def
      on_headers_complete_def on_body_def on_message_complete_def Let_def split: option.split)

lemma run_callbacks_other_direction:
  assumes "t' \<noteq> t"
  shows "header (fst (run_callbacks dec t chunk s es)) t' = header s t' \<and>
         complete_flag (fst (run_callbacks dec t chunk s es)) t' = complete_flag s t' \<and>
         (t' \<noteq> HTTP_RESPONSE \<longrightarrow> body (fst (run_callbacks dec t chunk s es)) t' = body s t')"
proof (induction es arbitrary: s)
  case Nil
  then show ?case by simp
next
  case (Cons e es)
  obtain s1 o1 where c: "callback dec t chunk s e = (s1, o1)" by fastforce
  from callback_other_direction [OF assms, of dec chunk s e] c Cons.IH [of s1]
  show ?case by (auto split: prod.split)
qed

lemma fed_bytes_append [simp]: "fed_bytes t (xs @ ys) = fed_bytes t xs @ fed_bytes t ys"
  by (induction t xs rule: fed_bytes.induct) auto

lemma fed_bytes_stderr: "set es \<subseteq> {Stderr m} \<Longrightarrow> fed_bytes t es = []"
  by (induction t es rule: fed_bytes.induct) auto

lemma run_callbacks_eq_frame:
  "run_callbacks dec t chunk x es = (s', outs) \<Longrightarrow>
   streams s' = streams x \<and> parser s' = parser x \<and> set outs \<subseteq> {Stderr decompress_error_msg}"
  using run_callbacks_frame [of dec t chunk x es] by simp

lemma run_callbacks_eq_other_direction:
  "run_callbacks dec t chunk x es = (s', outs) \<Longrightarrow> t' \<noteq> t \<Longrightarrow>
   header s' t' = header x t' \<and> complete_flag s' t' = complete_flag x t' \<and>
   (t' \<noteq> HTTP_RESPONSE \<longrightarrow> body s' t' = body x t')"
  using run_callbacks_other_direction [of t' t dec chunk x es] by simp

section \<open>The outcomes of one call\<close>

text \<open>
  The outcomes of \<open>parse\<close> for a direction, in terms of the re-initialised state
  \<open>s0\<close>: a retransmission, no new contiguous bytes, or new bytes fed to the parser.
\<close>

lemma parse_Inr:
  assumes "parse tp dec pkt t s = Inr (r, s', effs)"
  defines "s0 \<equiv> (if ptype (parser s) \<noteq> t then s\<lparr>parser := http_parser_init tp t\<rparr> else s)"
  obtains (retrans) "is_direction t" "reassemble pkt (streams s t) = Retransmission"
      "r" "effs = []" "s' = s0"
  | (nogrow) st where "is_direction t" "reassemble pkt (streams s t) = Reassembled st"
      "\<not> length (raw (streams s t)) < length (raw st)" "r" "effs = []"
      "s' = s0\<lparr>streams := (streams s)(t := st)\<rparr>"
  | (fed) st ps' evs n outs where "is_direction t" "reassemble pkt (streams s t) = Reassembled st"
      "length (raw (streams s t)) < length (raw st)"
      "tp_execute tp (pstate (parser s0)) (drop (length (raw (streams s t))) (raw st)) = (ps', evs, n)"
      "run_callbacks dec t (drop (length (raw (streams s t))) (raw st))
         (s0\<lparr>streams := (streams s)(t := st), parser := (parser s0)\<lparr>pstate := ps'\<rparr>\<rparr>) evs = (s', outs)"
      "r = (0 < n \<and> tp_errno_ok tp ps')"
      "effs = Parser_execute t (drop (length (raw (streams s t))) (raw st)) # outs"
proof -
  have ty: "ptype (parser s0) = t" and st: "streams s0 = streams s"
    by (simp_all add: s0_def http_parser_init_def)
  have dir: "is_direction t"
    using assms(1) ty by (auto simp: parse_def Let_def s0_def split: if_splits)
  show ?thesis
  proof (cases "reassemble pkt (streams s t)")
    case Retransmission
    with assms(1) dir show ?thesis
      by (intro retrans) (auto simp: parse_def Let_def s0_def http_parser_init_def split: if_splits)
  next
    case (Reassembled st')
    show ?thesis
    proof (cases "length (raw (streams s t)) < length (raw st')")
      case False
      with assms(1) dir Reassembled show ?thesis
        by (intro nogrow [of st']) (auto simp: parse_def Let_def s0_def http_parser_init_def split: if_splits)
    next
      case True
      obtain ps' evs n where x: "tp_execute tp (pstate (parser s0)) (drop (length (raw (streams s t))) (raw st'))
          = (ps', evs, n)" by (metis prod_cases3)
      obtain s'' outs where c: "run_callbacks dec t (drop (length (raw (streams s t))) (raw st'))
          (s0\<lparr>streams := (streams s)(t := st'), parser := (parser s0)\<lparr>pstate := ps'\<rparr>\<rparr>) evs = (s'', outs)"
        by fastforce
      from assms(1) dir Reassembled True x c ty st have "s' = s'' \<and> r = (0 < n \<and> tp_errno_ok tp ps') \<and>
          effs = Parser_execute t (drop (length (raw (streams s t))) (raw st')) # outs"
        unfolding parse_def Let_def s0_def
        by (auto simp: http_parser_init_def split: if_splits)
      with dir Reassembled True x c show ?thesis
        by (intro fed [of st' ps' evs n outs]) auto
    qed
  qed
qed

lemma parse_Inr_streams:
  assumes "parse tp dec pkt t s = Inr (r, s', effs)"
  shows "streams s' = (streams s)(t := reassembled (streams s t) (reassemble pkt (streams s t)))"
  using assms
proof (cases rule: parse_Inr)
  case retrans
  then show ?thesis by (simp add: reassembled_def fun_upd_idem http_parser_init_def)
next
  case (nogrow st)
  then show ?thesis by (simp add: reassembled_def http_parser_init_def)
next
  case (fed st ps' evs n outs)
  from run_callbacks_eq_frame [OF fed(5)] fed(2) show ?thesis
    by (simp add: reassembled_def)
qed

text \<open>The bytes given to the parser for each direction are what its stream grew by.\<close>

lemma parse_fed_bytes:
  assumes "parse tp dec pkt t s = Inr (r, s', effs)"
  shows "fed_bytes t' effs = drop (length (raw (streams s t'))) (raw (streams s' t')) \<and>
         raw (streams s' t') = raw (streams s t') @ fed_bytes t' effs"
  using assms
proof (cases rule: parse_Inr)
  case retrans
  then show ?thesis by (simp add: http_parser_init_def)
next
  case (nogrow st)
  from reassemble_raw_prefix [OF nogrow(2)] nogrow(3) have "raw st = raw (streams s t)"
    by (rule prefix_length_eq)
  with nogrow show ?thesis by (simp add: http_parser_init_def)
next
  case (fed st ps' evs n outs)
  from run_callbacks_eq_frame [OF fed(5)] have fr: "streams s' = (streams s)(t := st)"
    and so: "set outs \<subseteq> {Stderr decompress_error_msg}" by simp_all
  from so have o: "fed_bytes t' outs = []" by (rule fed_bytes_stderr)
  from reassemble_raw_prefix [OF fed(2)] have "raw st = raw (streams s t) @ drop (length (raw (streams s t))) (raw st)"
    by (rule prefix_drop_length)
  with fr o fed(7) show ?thesis by auto
qed

section \<open>The exchange invariant\<close>

lemma http_parser_type_list: "set [HTTP_REQUEST, HTTP_RESPONSE, HTTP_BOTH] = UNIV"
  using http_parser_type.exhaust by auto

lemma exchange_inv_iff:
  "exchange_inv s \<longleftrightarrow> is_direction (ptype (parser s)) \<and>
     (\<forall>t. stream_inv (streams s t) \<and> prefix (header s t) (raw (streams s t)))"
  unfolding exchange_inv_def list_all_iff http_parser_type_list by blast

lemma callback_header_prefix:
  assumes "prefix (header s t') (raw (streams s t'))"
  shows "prefix (header (fst (callback dec t chunk s e)) t') (raw (streams (fst (callback dec t chunk s e)) t'))"
  using assms callback_frame [of dec t chunk s e]
  by (cases e) (auto simp: on_url_def on_header_field_def on_header_value_def on_headers_complete_def
      on_body_def on_message_complete_def Let_def take_is_prefix split: option.split)

lemma run_callbacks_header_prefix:
  "run_callbacks dec t chunk x es = (s', outs) \<Longrightarrow> prefix (header x t') (raw (streams x t')) \<Longrightarrow>
   prefix (header s' t') (raw (streams s' t'))"
proof (induction es arbitrary: x outs)
  case Nil
  then show ?case by simp
next
  case (Cons e es)
  obtain x1 o1 where c: "callback dec t chunk x e = (x1, o1)" by fastforce
  from Cons.prems(1) c obtain o2 where r: "run_callbacks dec t chunk x1 es = (s', o2)"
    by (auto split: prod.splits)
  from callback_header_prefix [OF Cons.prems(2), of dec t chunk e] c
  have "prefix (header x1 t') (raw (streams x1 t'))" by simp
  with r show ?case by (rule Cons.IH)
qed

lemma parse_exchange_inv:
  assumes "parse tp dec pkt t s = Inr (r, s', effs)" and inv: "exchange_inv s"
  shows "exchange_inv s'"
  using assms(1)
proof (cases rule: parse_Inr)
  case retrans
  with inv show ?thesis by (auto simp: exchange_inv_iff http_parser_init_def)
next
  case (nogrow st)
  from reassemble_raw_prefix [OF nogrow(2)] nogrow(3) have "raw st = raw (streams s t)"
    by (rule prefix_length_eq)
  moreover from inv nogrow(2) have "stream_inv st"
    by (auto simp: exchange_inv_iff intro: reassemble_preserves_inv)
  ultimately show ?thesis using inv nogrow by (auto simp: exchange_inv_iff http_parser_init_def)
next
  case (fed st ps' evs n outs)
  let ?x = "(if ptype (parser s) \<noteq> t then s\<lparr>parser := http_parser_init tp t\<rparr> else s)
              \<lparr>streams := (streams s)(t := st),
               parser := (parser (if ptype (parser s) \<noteq> t then s\<lparr>parser := http_parser_init tp t\<rparr> else s))
                 \<lparr>pstate := ps'\<rparr>\<rparr>"
  from run_callbacks_eq_frame [OF fed(5)] have fr: "streams s' = (streams s)(t := st)"
    "parser s' = parser ?x" by simp_all
  from inv fed(2) have sti: "stream_inv st"
    by (auto simp: exchange_inv_iff intro: reassemble_preserves_inv)
  have "prefix (header ?x t') (raw (streams ?x t'))" for t'
  proof (cases "t' = t")
    case True
    from inv have "prefix (header s t) (raw (streams s t))" by (simp add: exchange_inv_iff)
    also from fed(2) have "prefix (raw (streams s t)) (raw st)" by (rule reassemble_raw_prefix)
    finally show ?thesis using True by simp
  next
    case False
    with inv show ?thesis by (simp add: exchange_inv_iff)
  qed
  then have "prefix (header s' t') (raw (streams s' t'))" for t'
    by (rule run_callbacks_header_prefix [OF fed(5)])
  with fr sti inv fed(1) show ?thesis by (auto simp: exchange_inv_iff http_parser_init_def)
qed

section \<open>Runs of calls\<close>

lemma parse_run_Cons_Inr:
  assumes "parse_run tp dec ((p, t) # ps) s = Inr (s', effs)"
  obtains r s1 o1 o2 where "parse tp dec p t s = Inr (r, s1, o1)"
    "parse_run tp dec ps s1 = Inr (s', o2)" "effs = o1 @ o2"
proof (cases "parse tp dec p t s")
  case (Inl e)
  with assms show ?thesis by simp
next
  case (Inr v)
  obtain r s1 o1 where v: "v = (r, s1, o1)" by (metis prod_cases3)
  show ?thesis
  proof (cases "parse_run tp dec ps s1")
    case (Inl e)
    with assms Inr v show ?thesis by simp
  next
    case (Inr w)
    obtain s2 o2 where w: "w = (s2, o2)" by fastforce
    from assms \<open>parse tp dec p t s = Inr v\<close> v Inr w have "s2 = s' \<and> effs = o1 @ o2" by simp
    with \<open>parse tp dec p t s = Inr v\<close> v Inr w show ?thesis by (intro that) auto
  qed
qed

lemma parse_run_fed:
  "parse_run tp dec ps s = Inr (s', effs) \<Longrightarrow> raw (streams s' t) = raw (streams s t) @ fed_bytes t effs"
proof (induction ps arbitrary: s effs)
  case Nil
  then show ?case by simp
next
  case (Cons pt ps)
  obtain p t0 where pt: "pt = (p, t0)" by fastforce
  from Cons.prems [unfolded pt] obtain r s1 o1 o2 where
    c: "parse tp dec p t0 s = Inr (r, s1, o1)" and
    rest: "parse_run tp dec ps s1 = Inr (s', o2)" and e: "effs = o1 @ o2"
    by (rule parse_run_Cons_Inr)
  from parse_fed_bytes [OF c, of t] have "raw (streams s1 t) = raw (streams s t) @ fed_bytes t o1"
    by (rule conjunct2)
  with Cons.IH [OF rest] e show ?case by simp
qed

lemma parse_run_streams:
  "parse_run tp dec ps s = Inr (s', effs) \<Longrightarrow>
   streams s' t = reassemble_all (map fst (filter (\<lambda>x. snd x = t) ps)) (streams s t)"
proof (induction ps arbitrary: s effs)
  case Nil
  then show ?case by simp
next
  case (Cons pt ps)
  obtain p t0 where pt: "pt = (p, t0)" by fastforce
  from Cons.prems [unfolded pt] obtain r s1 o1 o2 where
    c: "parse tp dec p t0 s = Inr (r, s1, o1)" and
    rest: "parse_run tp dec ps s1 = Inr (s', o2)" and "effs = o1 @ o2"
    by (rule parse_run_Cons_Inr)
  from parse_Inr_streams [OF c] Cons.IH [OF rest] pt show ?case
    by (cases "reassemble p (streams s t)") (auto simp: reassembled_def)
qed

section \<open>Properties of one call\<close>

text \<open>
  C7: \<^verbatim>\<open>parse\<close> feeds the token parser exactly the bytes that became contiguous:
  the stream of the call's direction is the reassembled one, the other is untouched,
  the parser is given the suffix by which the stream grew (\<^verbatim>\<open>str->c_str() +
  orig_size\<close>), and nothing for the other direction.
\<close>

theorem parse_feeds_new_bytes:
  assumes "parse tp dec pkt t s = Inr (r, s', effs)"
  shows "streams s' = (streams s)(t := reassembled (streams s t) (reassemble pkt (streams s t))) \<and>
         fed_bytes t effs = drop (length (raw (streams s t))) (raw (streams s' t)) \<and>
         (\<forall>t'. t' \<noteq> t \<longrightarrow> fed_bytes t' effs = [])"
proof -
  have st: "streams s' = (streams s)(t := reassembled (streams s t) (reassemble pkt (streams s t)))"
    using assms by (rule parse_Inr_streams)
  have "\<And>t'. fed_bytes t' effs = drop (length (raw (streams s t'))) (raw (streams s' t'))"
    using parse_fed_bytes [OF assms] by blast
  with st show ?thesis by simp
qed

text \<open>
  C8: the one \<^verbatim>\<open>http_parser\<close> is shared by both directions.  When a call feeds the
  parser, it runs on the parser's state if the previous call was for the same
  direction, and on a freshly initialised one otherwise (lines 22--24); the call's
  result is \<^verbatim>\<open>parse_bytes > 0 && HTTP_PARSER_ERRNO == HPE_OK\<close> on that run.
\<close>

theorem parse_executes_shared_parser:
  assumes "parse tp dec pkt t s = Inr (r, s', effs)" and "Parser_execute t' c \<in> set effs"
  shows "t' = t \<and> ptype (parser s') = t \<and>
         pstate (parser s') =
           fst (tp_execute tp (if ptype (parser s) = t then pstate (parser s) else tp_init tp t) c) \<and>
         (r \<longleftrightarrow> 0 < snd (snd (tp_execute tp (if ptype (parser s) = t then pstate (parser s)
                                           else tp_init tp t) c))
                \<and> tp_errno_ok tp (pstate (parser s')))"
  using assms(1)
proof (cases rule: parse_Inr)
  case retrans
  with assms(2) show ?thesis by simp
next
  case (nogrow st)
  with assms(2) show ?thesis by simp
next
  case (fed st ps' evs n outs)
  from run_callbacks_eq_frame [OF fed(5)] have p: "parser s' = (parser (if ptype (parser s) \<noteq> t
      then s\<lparr>parser := http_parser_init tp t\<rparr> else s))\<lparr>pstate := ps'\<rparr>"
    and so: "set outs \<subseteq> {Stderr decompress_error_msg}" by simp_all
  from assms(2) so fed(7) have "t' = t \<and> c = drop (length (raw (streams s t))) (raw st)" by auto
  with p fed(4) fed(6) show ?thesis by (auto simp: http_parser_init_def)
qed

text \<open>
  C19: a retransmission (line 33) returns true at once: the stream is untouched and
  nothing is given to the parser, but the parser has already been re-initialised if
  the previous call was for the other direction.
\<close>

theorem parse_retransmission:
  assumes "is_direction t" and "reassemble pkt (streams s t) = Retransmission"
  shows "parse tp dec pkt t s =
           Inr (True, if ptype (parser s) \<noteq> t then s\<lparr>parser := http_parser_init tp t\<rparr> else s, [])"
  using assms by (simp add: parse_def Let_def http_parser_init_def)


text \<open>
  C18: a call for one direction leaves the other direction's stream, header and
  completion flag unchanged, and its body unless it is the response's (which
  \<^verbatim>\<open>on_message_complete\<close> of a request may decompress again).
\<close>

theorem parse_other_direction_frame:
  assumes "parse tp dec pkt t s = Inr (r, s', effs)" and "t' \<noteq> t"
  shows "streams s' t' = streams s t' \<and> header s' t' = header s t' \<and>
         complete_flag s' t' = complete_flag s t' \<and> (t' \<noteq> HTTP_RESPONSE \<longrightarrow> body s' t' = body s t')"
  using assms(1)
proof (cases rule: parse_Inr)
  case retrans
  then show ?thesis by (simp add: http_parser_init_def)
next
  case (nogrow st)
  with assms(2) show ?thesis by (simp add: http_parser_init_def)
next
  case (fed st ps' evs n outs)
  from run_callbacks_eq_frame [OF fed(5)] run_callbacks_eq_other_direction [OF fed(5) assms(2)] assms(2)
  show ?thesis by (simp add: http_parser_init_def)
qed




section \<open>Reachable states\<close>

text \<open>
  C6: every state the object reaches through its interface is well formed: the
  shared parser is set up for a direction, each direction's out-of-order map has
  distinct keys and no entry at \<^verbatim>\<open>next_seq\<close>, and each captured header block is a
  prefix of its direction's reassembled stream.
\<close>

theorem reachable_exchange_inv:
  assumes "reachable tp dec s"
  shows "exchange_inv s"
  using assms
proof (induction rule: reachable.induct)
  case reach_init
  show ?case
    by (simp add: exchange_inv_def custom_parser_init_def http_parser_init_def stream_inv_empty)
next
  case (reach_parse s p t r s' effs)
  from reach_parse.hyps(2) reach_parse.IH show ?case by (rule parse_exchange_inv)
next
  case (reach_set_addr s a b)
  then show ?case by (simp add: exchange_inv_def set_addr_def)
qed

section \<open>Witnesses\<close>

theorem parse_feeds_new_bytes_witness:
  "\<exists>r s' effs. parse null_token_parser (\<lambda>_. None) \<lparr>seq = 5, payload = ''ab''\<rparr> HTTP_REQUEST
       (custom_parser_init null_token_parser) = Inr (r, s', effs) \<and>
     raw (streams s' HTTP_REQUEST) = ''ab'' \<and> fed_bytes HTTP_REQUEST effs = ''ab''"
proof -
  have "\<exists>v. parse null_token_parser (\<lambda>_. None) \<lparr>seq = 5, payload = ''ab''\<rparr> HTTP_REQUEST
       (custom_parser_init null_token_parser) = Inr v"
    by (simp add: parse_def reassemble_def drain_ooo.simps null_token_parser_def
        custom_parser_init_def http_parser_init_def empty_stream_def Let_def) blast
  then obtain r s' effs where e: "parse null_token_parser (\<lambda>_. None) \<lparr>seq = 5, payload = ''ab''\<rparr>
       HTTP_REQUEST (custom_parser_init null_token_parser) = Inr (r, s', effs)" by (metis prod_cases3)
  from parse_feeds_new_bytes [OF e] e show ?thesis
    by (simp add: reassemble_def drain_ooo.simps custom_parser_init_def empty_stream_def reassembled_def)
qed

theorem parse_executes_shared_parser_witness:
  "\<exists>r s' effs. parse counting_token_parser (\<lambda>_. None) \<lparr>seq = 7, payload = ''ab''\<rparr> HTTP_RESPONSE
       (custom_parser_init counting_token_parser) = Inr (r, s', effs) \<and> r \<and> pstate (parser s') = 2"
proof -
  have "\<exists>v. parse counting_token_parser (\<lambda>_. None) \<lparr>seq = 7, payload = ''ab''\<rparr> HTTP_RESPONSE
       (custom_parser_init counting_token_parser) = Inr v"
    by (simp add: parse_def reassemble_def drain_ooo.simps counting_token_parser_def
        custom_parser_init_def http_parser_init_def empty_stream_def Let_def) blast
  then obtain r s' effs where e: "parse counting_token_parser (\<lambda>_. None) \<lparr>seq = 7, payload = ''ab''\<rparr>
       HTTP_RESPONSE (custom_parser_init counting_token_parser) = Inr (r, s', effs)" by (metis prod_cases3)
  from e have "Parser_execute HTTP_RESPONSE ''ab'' \<in> set effs"
    by (auto simp: parse_def reassemble_def drain_ooo.simps counting_token_parser_def
        custom_parser_init_def http_parser_init_def empty_stream_def Let_def)
  from parse_executes_shared_parser [OF e this] e show ?thesis
    by (simp add: counting_token_parser_def custom_parser_init_def http_parser_init_def) blast
qed

theorem parse_retransmission_witness:
  "parse null_token_parser (\<lambda>_. None) \<lparr>seq = 3, payload = ''ab''\<rparr> HTTP_REQUEST
     (custom_parser_init null_token_parser\<lparr>streams := (\<lambda>_. \<lparr>raw = ''abc'', next_seq = 4, ooo = []\<rparr>)\<rparr>)
   = Inr (True, custom_parser_init null_token_parser\<lparr>streams := (\<lambda>_. \<lparr>raw = ''abc'', next_seq = 4, ooo = []\<rparr>)\<rparr>, [])"
proof -
  have "reassemble \<lparr>seq = 3, payload = ''ab''\<rparr>
     (streams (custom_parser_init null_token_parser\<lparr>streams := (\<lambda>_. \<lparr>raw = ''abc'', next_seq = 4, ooo = []\<rparr>)\<rparr>)
       HTTP_REQUEST) = Retransmission"
    by (simp add: reassemble_def)
  from parse_retransmission [OF _ this] show ?thesis
    by (simp add: custom_parser_init_def http_parser_init_def)
qed

theorem parse_other_direction_frame_witness:
  "\<exists>r s' effs. parse null_token_parser (\<lambda>_. None) \<lparr>seq = 5, payload = ''ab''\<rparr> HTTP_REQUEST
       (custom_parser_init null_token_parser) = Inr (r, s', effs) \<and>
     streams s' HTTP_RESPONSE = empty_stream \<and> header s' HTTP_RESPONSE = []"
proof -
  have "\<exists>v. parse null_token_parser (\<lambda>_. None) \<lparr>seq = 5, payload = ''ab''\<rparr> HTTP_REQUEST
       (custom_parser_init null_token_parser) = Inr v"
    by (simp add: parse_def reassemble_def drain_ooo.simps null_token_parser_def
        custom_parser_init_def http_parser_init_def empty_stream_def Let_def) blast
  then obtain r s' effs where e: "parse null_token_parser (\<lambda>_. None) \<lparr>seq = 5, payload = ''ab''\<rparr>
       HTTP_REQUEST (custom_parser_init null_token_parser) = Inr (r, s', effs)" by (metis prod_cases3)
  have "HTTP_RESPONSE \<noteq> HTTP_REQUEST" by simp
  from parse_other_direction_frame [OF e this] e show ?thesis
    by (simp add: custom_parser_init_def)
qed

theorem reachable_exchange_inv_witness:
  "\<exists>r s' effs. parse null_token_parser (\<lambda>_. None) \<lparr>seq = 5, payload = ''ab''\<rparr> HTTP_REQUEST
       (custom_parser_init null_token_parser) = Inr (r, s', effs) \<and> exchange_inv s'"
proof -
  have "\<exists>v. parse null_token_parser (\<lambda>_. None) \<lparr>seq = 5, payload = ''ab''\<rparr> HTTP_REQUEST
       (custom_parser_init null_token_parser) = Inr v"
    by (simp add: parse_def reassemble_def drain_ooo.simps null_token_parser_def
        custom_parser_init_def http_parser_init_def empty_stream_def Let_def) blast
  then obtain r s' effs where e: "parse null_token_parser (\<lambda>_. None) \<lparr>seq = 5, payload = ''ab''\<rparr>
       HTTP_REQUEST (custom_parser_init null_token_parser) = Inr (r, s', effs)" by (metis prod_cases3)
  have "reachable null_token_parser (\<lambda>_. None) s'"
    by (rule reach_parse [OF reach_init e])
  then have "exchange_inv s'" by (rule reachable_exchange_inv)
  with e show ?thesis by blast
qed

end
