(* ===== verification/Sink.thy ===== *)
theory Sink
  imports Exchange
begin

text \<open>
  The filter and output of an exchange (src/custom_parser.cpp, lines 135--195):
  \<^verbatim>\<open>filter_url\<close>, \<^verbatim>\<open>save_http_request\<close> and the two \<^verbatim>\<open>operator<<\<close>.  The
  compiled regular expression is the function \<^verbatim>\<open>pcre_exec\<close> computes from the
  subject (its return code \<open>rc\<close>), or \<open>None\<close> for a NULL pattern.  The process-wide
  \<^verbatim>\<open>is_atty\<close> flag, the \<^verbatim>\<open>is_plain_text\<close> heuristic of util.cpp and whether the
  file system lets \<^verbatim>\<open>std::ofstream\<close> open a path are the record \<open>sink_env\<close>.
  Output is a list of effects: console writes, diagnostics, file appends and the
  process exit.
\<close>

section \<open>Environment\<close>

record sink_env =
  is_atty :: bool
  is_plain_text :: "bytes \<Rightarrow> bool"
  can_open :: "bytes \<Rightarrow> bool"

text \<open>\<^verbatim>\<open>std::endl\<close>: a newline (the flush is not observable here).\<close>

definition endl :: bytes where "endl = [CHR 0x0A]"

section \<open>The filter\<close>

definition filter_url :: "(bytes \<Rightarrow> int) option \<Rightarrow> bytes \<Rightarrow> bool" where
  "filter_url url_filter_re u = (case url_filter_re of None \<Rightarrow> True | Some pcre_exec \<Rightarrow> 0 \<le> pcre_exec u)"

section \<open>Formatting\<close>

text \<open>
  \<^verbatim>\<open>operator<<(std::ostream &, const custom_parser &)\<close>, lines 166--187: coloured
  headers, bodies or markers for binary (on a terminal) and empty response bodies.
\<close>

definition console_format :: "sink_env \<Rightarrow> 'ps custom_parser \<Rightarrow> bytes" where
  "console_format env s =
     ANSI_COLOR_GREEN @ header s HTTP_REQUEST @ ANSI_COLOR_RESET @
     (if \<not> is_atty env \<or> is_plain_text env (body s HTTP_REQUEST) then body s HTTP_REQUEST
      else ANSI_COLOR_RED @ ''[binary request body]'' @ ANSI_COLOR_RESET) @
     endl @ ANSI_COLOR_BLUE @ header s HTTP_RESPONSE @ ANSI_COLOR_RESET @
     (if body s HTTP_RESPONSE = [] then ANSI_COLOR_RED @ ''[empty response body]'' @ ANSI_COLOR_RESET
      else if \<not> is_atty env \<or> is_plain_text env (body s HTTP_RESPONSE) then body s HTTP_RESPONSE
      else ANSI_COLOR_RED @ ''[binary response body]'' @ ANSI_COLOR_RESET)"

text \<open>\<^verbatim>\<open>operator<<(std::ofstream &, const custom_parser &)\<close>, lines 189--195.\<close>

definition file_format :: "'ps custom_parser \<Rightarrow> bytes" where
  "file_format s = header s HTTP_REQUEST @ body s HTTP_REQUEST @ header s HTTP_RESPONSE @ body s HTTP_RESPONSE"

section \<open>Saving an exchange\<close>

text \<open>
  Lines 142--164.  \<^verbatim>\<open>out << *this\<close> on the \<^verbatim>\<open>std::ofstream\<close> selects the file
  overload; \<^verbatim>\<open>exit(1)\<close> ends the effect list.
\<close>

definition save_http_request ::
  "(bytes \<Rightarrow> int) option \<Rightarrow> sink_env \<Rightarrow> bytes \<Rightarrow> 'ps custom_parser \<Rightarrow> effect list" where
  "save_http_request url_filter_re env output_path s =
     (let host_with_url = host s @ url s in
      if \<not> filter_url url_filter_re host_with_url then []
      else Stdout (ANSI_COLOR_CYAN @ address s HTTP_REQUEST @ '' -> '' @ address s HTTP_RESPONSE @
                   ANSI_COLOR_RESET @ endl) #
           (if output_path \<noteq> [] then
              (let save_filename = output_path @ ''/'' @ host s in
               if can_open env save_filename then [File_append save_filename (file_format s @ endl)]
               else [Stderr (''ofstream ['' @ save_filename @ ''] is not opened.'' @ endl), Exit 1])
            else [Stdout (console_format env s @ endl)]))"

text \<open>The console writes and file appends of an effect list.\<close>

fun output_effect :: "effect \<Rightarrow> bool" where
  "output_effect (Stdout _) = True"
| "output_effect (File_append _ _) = True"
| "output_effect _ = False"

text \<open>An environment for the closed examples: a terminal on which no file can be opened.\<close>

definition example_env :: sink_env where
  "example_env = \<lparr>is_atty = True, is_plain_text = (\<lambda>b. CHR 0x00 \<notin> set b), can_open = (\<lambda>_. False)\<rparr>"

section \<open>Properties of the sink\<close>

lemma save_http_request_accepted:
  "filter_url re (host s @ url s) \<Longrightarrow>
   save_http_request re env path s =
     Stdout (ANSI_COLOR_CYAN @ address s HTTP_REQUEST @ '' -> '' @ address s HTTP_RESPONSE @
             ANSI_COLOR_RESET @ endl) #
     (if path \<noteq> [] then
        (if can_open env (path @ ''/'' @ host s) then [File_append (path @ ''/'' @ host s) (file_format s @ endl)]
         else [Stderr (''ofstream ['' @ (path @ ''/'' @ host s) @ ''] is not opened.'' @ endl), Exit 1])
      else [Stdout (console_format env s @ endl)])"
  by (simp add: save_http_request_def Let_def)

text \<open>
  C11: an exchange whose \<^verbatim>\<open>host + url\<close> the configured filter rejects is not
  output at all: no console write, no file write, no diagnostic.
\<close>

theorem save_filter_rejects_silent:
  assumes "\<not> filter_url re (host s @ url s)"
  shows "save_http_request re env path s = []"
  using assms by (simp add: save_http_request_def)

text \<open>
  C23: when an output directory is configured and the per-host file cannot be opened,
  nothing is written to any file, the diagnostic names the file, and the process exits
  with status 1.
\<close>

theorem save_open_failure_fatal:
  assumes "filter_url re (host s @ url s)" and "path \<noteq> []"
    and "\<not> can_open env (path @ ''/'' @ host s)"
  shows "last (save_http_request re env path s) = Exit 1 \<and>
         (\<forall>f c. File_append f c \<notin> set (save_http_request re env path s)) \<and>
         Stderr (''ofstream ['' @ path @ ''/'' @ host s @ ''] is not opened.'' @ endl)
           \<in> set (save_http_request re env path s)"
  using assms by (simp add: save_http_request_accepted)

text \<open>
  C24: in file mode the exchange is appended once, to \<open>output_path/host\<close>, as the raw
  header and body blocks of both directions back to back with no marker; and the
  console still receives the address line, although the specification says the
  exchange is printed to standard output \<^emph>\<open>or\<close> appended to a file.
\<close>

theorem save_file_mode:
  assumes "filter_url re (host s @ url s)" and "path \<noteq> []" and "can_open env (path @ ''/'' @ host s)"
  shows "[e \<leftarrow> save_http_request re env path s. \<not> output_effect e] = [] \<and>
         [e \<leftarrow> save_http_request re env path s. case e of File_append _ _ \<Rightarrow> True | _ \<Rightarrow> False]
           = [File_append (path @ ''/'' @ host s)
                (header s HTTP_REQUEST @ body s HTTP_REQUEST @ header s HTTP_RESPONSE @ body s HTTP_RESPONSE @ endl)] \<and>
         (\<exists>line. Stdout line \<in> set (save_http_request re env path s))"
  using assms by (simp add: save_http_request_accepted file_format_def)

text \<open>
  C25: the console ends with the response body or its marker: an empty response body
  is always marked, a non-text one is hidden behind a marker on a terminal, and off a
  terminal the body is printed verbatim.
\<close>

theorem console_response_markers:
  "(body s HTTP_RESPONSE = [] \<longrightarrow>
      suffix (ANSI_COLOR_RED @ ''[empty response body]'' @ ANSI_COLOR_RESET) (console_format env s)) \<and>
   (is_atty env \<and> body s HTTP_RESPONSE \<noteq> [] \<and> \<not> is_plain_text env (body s HTTP_RESPONSE) \<longrightarrow>
      suffix (ANSI_COLOR_RED @ ''[binary response body]'' @ ANSI_COLOR_RESET) (console_format env s)) \<and>
   (\<not> is_atty env \<longrightarrow> suffix (body s HTTP_RESPONSE) (console_format env s))"
  by (auto simp: console_format_def suffix_def)

section \<open>Witnesses\<close>

theorem save_filter_rejects_silent_witness:
  "save_http_request (Some (\<lambda>_. -1)) example_env ''out'' (custom_parser_init null_token_parser) = []"
proof -
  have "\<not> filter_url (Some (\<lambda>_. -1)) (host (custom_parser_init null_token_parser) @ url (custom_parser_init null_token_parser))"
    by (simp add: filter_url_def)
  then show ?thesis by (rule save_filter_rejects_silent)
qed

theorem save_open_failure_fatal_witness:
  "last (save_http_request None example_env ''out'' (custom_parser_init null_token_parser)) = Exit 1"
proof -
  have "filter_url None (host (custom_parser_init null_token_parser) @ url (custom_parser_init null_token_parser))"
    by (simp add: filter_url_def)
  moreover have "''out'' \<noteq> []" by simp
  moreover have "\<not> can_open example_env (''out'' @ ''/'' @ host (custom_parser_init null_token_parser))"
    by (simp add: example_env_def)
  ultimately show ?thesis using save_open_failure_fatal by blast
qed

theorem save_file_mode_witness:
  "[e \<leftarrow> save_http_request None (example_env\<lparr>can_open := (\<lambda>_. True)\<rparr>) ''out''
          (custom_parser_init null_token_parser). case e of File_append _ _ \<Rightarrow> True | _ \<Rightarrow> False]
     = [File_append ''out/'' endl]"
proof -
  have "filter_url None (host (custom_parser_init null_token_parser) @ url (custom_parser_init null_token_parser))"
    by (simp add: filter_url_def)
  moreover have "''out'' \<noteq> []" by simp
  moreover have "can_open (example_env\<lparr>can_open := (\<lambda>_. True)\<rparr>) (''out'' @ ''/'' @ host (custom_parser_init null_token_parser))"
    by simp
  ultimately show ?thesis using save_file_mode [of None "custom_parser_init null_token_parser" "''out''"]
    by (simp add: custom_parser_init_def)
qed

theorem console_response_markers_witness:
  "suffix (ANSI_COLOR_RED @ ''[empty response body]'' @ ANSI_COLOR_RESET)
     (console_format example_env (custom_parser_init null_token_parser))"
  using console_response_markers [of "custom_parser_init null_token_parser" example_env]
  by (simp add: custom_parser_init_def)

end
