(* ===== verification/Spec2Isabelle.thy ===== *)
theory Spec2Isabelle
  imports Reassembly_Order Reassembly_Spec Parse Sink
begin

text \<open>
  \<^bold>\<open>A verification development of httpflow's HTTP exchange reconstruction.\<close>

  The program (src/custom_parser.cpp, class \<^verbatim>\<open>custom_parser\<close>) rebuilds one
  HTTP request/response exchange from captured TCP segments.  \<^verbatim>\<open>parse\<close> is called
  once per captured segment with its direction.  It re-initialises the one shared
  \<^verbatim>\<open>http_parser\<close> when the direction changes, reassembles the direction's byte
  stream from out-of-order and retransmitted segments (\<^verbatim>\<open>raw[]\<close>,
  \<^verbatim>\<open>next_seq[]\<close>, \<^verbatim>\<open>out_of_order_packet[]\<close>) and feeds the bytes that became
  contiguous to the http_parser, whose callbacks fill the exchange record; the
  completion of a message decompresses a gzip response body.
  \<^verbatim>\<open>save_http_request\<close> then filters the exchange by \<^verbatim>\<open>host + url\<close> and prints
  it or appends it to a per-host file.

  \<^bold>\<open>Theories and what they model.\<close>
  \<^item> \<open>Prelude\<close>: type names (\<open>u32 = 32 word\<close>, \<open>bytes = string\<close>), the
    \<^verbatim>\<open>std::map\<close> of the code as an association list with \<open>map_insert\<close> (insert
    without overwrite) and \<open>AList.delete\<close>, C strings (\<open>c_string\<close>,
    \<open>strstr_found\<close>), and lemmas on association lists, prefixes and word addition.
  \<^item> \<open>Reassembly\<close> (lines 25--52 of \<^verbatim>\<open>parse\<close>): \<open>stream_state\<close> holds one
    direction's entries of the three arrays; \<open>drain_ooo\<close> is the drain loop of lines
    41--51, a \<^theory_text>\<open>function\<close> whose termination measure is the size of the map (each
    iteration erases one entry); \<open>reassemble\<close> is one segment, \<open>Retransmission\<close>
    being the early \<^verbatim>\<open>return true\<close> of line 33.  Sequence numbers are
    \<open>32 word\<close>, so \<^verbatim>\<open>packet.seq + packet.body.size()\<close> wraps as the code's
    \<^verbatim>\<open>uint32_t\<close> does.  Lemmas: the invariant \<open>stream_inv\<close> (distinct keys, the
    entry at \<^verbatim>\<open>next_seq\<close> drained) is preserved; the stream is append-only;
    \<^verbatim>\<open>next_seq\<close> advances by the bytes appended modulo \<open>2^32\<close>; segments ahead
    are buffered and redelivered ones dropped; a buffered segment comes back out of
    the map intact when its gap fills (round trip); the awaited segment is never
    refused (progress); scenarios A--C of the specification.  The loop is also kept
    in the form the code writes it, \<open>drain_loop\<close> (\<open>while_option\<close> over
    \<open>drain_guard\<close> and \<open>drain_body\<close>, the \<^verbatim>\<open>break\<close> being the failed guard),
    and proved to stop within as many iterations as the map has entries with the
    result of \<open>drain_ooo\<close>.  The comparison with \<^verbatim>\<open>next_seq\<close> is
    characterised exactly: a segment \<open>d\<close> bytes ahead modulo \<open>2^32\<close> is dropped
    precisely when the addition wraps.
  \<^item> \<open>Reassembly_Spec\<close>: the specification's SegmentBuffer (explicit
    \<open>baseline_set\<close>, a pending map) with \<open>absorb\<close>, and the refinement lemma: one
    call of \<open>reassemble\<close> implements \<open>absorb\<close> on the abstraction \<open>abs_stream\<close>,
    under the two conditions the code needs (sentinel and copies agree).
  \<^item> \<open>Reassembly_Order\<close>: order independence.  A stream cut into non-empty
    segments (\<open>tiling\<close>) is reassembled exactly whatever the order of all segments
    but the first; the proof is an induction over the arrival order with an invariant
    \<open>ord_inv\<close>.  The bound \<open>unat b + length (concat xs) < 2^32\<close> excludes
    wrap-around within the stream, which the code does not handle (below).
  \<^item> \<open>Exchange\<close>: the record \<open>custom_parser\<close> with per-direction arrays as functions
    of the direction, the constructor, \<^verbatim>\<open>set_addr\<close>,
    \<^verbatim>\<open>get_response_body\<close>, and the interface \<open>token_parser\<close> of the external
    http_parser: an initial state per type, an execute function that returns the new
    state, the callbacks it makes (\<open>parser_event\<close>s with offsets into the chunk) and
    the bytes consumed, and the errno test.  Stub parsers (null, scripted) serve the
    closed examples.
  \<^item> \<open>Callbacks\<close> (lines 70--133): \<^verbatim>\<open>on_url\<close> \<dots> \<^verbatim>\<open>on_message_complete\<close> with
    their guards, \<open>callback\<close> for the settings table and \<open>run_callbacks\<close> for the
    callbacks of one execute, in order.  \<^verbatim>\<open>gzip_decompress\<close> is the parameter
    \<open>dec\<close>.  Lemmas: lower-casing by \<^verbatim>\<open>^ 0x20\<close> equals the reference; the gzip and
    host headers; decompression on success and failure.
  \<^item> \<open>Parse\<close> (lines 21--59): \<open>parse\<close>, the whole handler, returning
    \<^verbatim>\<open>parse\<close>'s boolean, the new record and the effects (\<open>Parser_execute\<close> for
    the bytes given to the parser, diagnostics), with the NULL dereference for
    \<^verbatim>\<open>HTTP_BOTH\<close> as the error \<open>Null_dereference\<close>; \<open>parse_run\<close> is a sequence of
    calls as the capture loop makes them.  Lemmas: each call feeds exactly the new
    bytes; the shared parser is re-initialised on a switch; the other direction is
    untouched; retransmissions skip the parser.  \<open>reachable\<close> is the inductive
    set of states the object reaches through the constructor, \<^verbatim>\<open>parse\<close> and
    \<^verbatim>\<open>set_addr\<close>; by rule induction every reachable state satisfies
    \<open>exchange_inv\<close> (parser set up for a direction, \<open>stream_inv\<close> for every
    direction, header blocks prefixes of their streams).
  \<^item> \<open>Sink\<close> (lines 135--195): \<open>filter_url\<close> over the \<^verbatim>\<open>pcre_exec\<close> return
    code, \<open>console_format\<close> and \<open>file_format\<close> (the two \<^verbatim>\<open>operator<<\<close>) and
    \<open>save_http_request\<close> as a list of effects, with \<^verbatim>\<open>is_atty\<close>,
    \<^verbatim>\<open>is_plain_text\<close> and the success of opening the file as the record
    \<open>sink_env\<close>.
  \<^item> This theory: properties of whole runs across components (every byte of the
    reassembled stream reaches the parser exactly once, in order; the end-to-end
    order independence), scenario D of the specification through all components,
    and two facts about the reachable states: the \<^verbatim>\<open>HTTP_BOTH\<close> entries of the
    per-direction arrays (\<open>both_slot_unused\<close>) are never written, and no call clears
    a completion flag; and where a failure comes from: \<^verbatim>\<open>parse\<close> returns false
    only after feeding the token parser new bytes that it rejected.

  \<^bold>\<open>Findings\<close> proved as closed theorems: the sentinel \<^verbatim>\<open>next_seq == 0\<close>
  collides with a stream ending at \<open>2^32\<close>; overtaken out-of-order entries are never
  removed; a segment buffered twice keeps its first copy; \<^verbatim>\<open>strstr\<close> reads past the
  header value; a field name split over two chunks is lost; the response body is
  decompressed again when the request completes; a segment just past the \<open>2^32\<close>
  wrap is dropped as a retransmission; the shared parser loses its state and
  its error when the directions interleave; a second message on a connection mixes
  headers and bodies; in file mode the console still gets output.

  \<^bold>\<open>Not modelled.\<close>  The http_parser library itself (only its interface, above),
  \<^verbatim>\<open>gzip_decompress\<close> and \<^verbatim>\<open>is_plain_text\<close> of util.cpp (parameters), the PCRE
  engine (its return code is a parameter), packet capture, flow demultiplexing and
  the command line (not under src/), and the flush of \<^verbatim>\<open>std::endl\<close>.  No fuel or
  bound is used: the only loop, the drain loop, is a terminating \<^theory_text>\<open>function\<close>
  (measure: the size of the map), its \<open>while_option\<close> form is proved to return, and
  the specification's drain terminates on the finite domain of its map.
\<close>

section \<open>The unused third slot\<close>

text \<open>
  The per-direction arrays of the class are indexed by \<^verbatim>\<open>parser.type\<close>; the model
  has an entry for every \<open>http_parser_type\<close>, so it also has one for
  \<^verbatim>\<open>HTTP_BOTH\<close>, which the code must never touch.
\<close>

definition both_slot_unused :: "'ps custom_parser \<Rightarrow> bool" where
  "both_slot_unused s \<longleftrightarrow> streams s HTTP_BOTH = empty_stream \<and> header s HTTP_BOTH = [] \<and>
     body s HTTP_BOTH = [] \<and> \<not> complete_flag s HTTP_BOTH \<and> address s HTTP_BOTH = []"

section \<open>Properties of whole runs\<close>

text \<open>
  C5: over any run of calls of \<^verbatim>\<open>parse\<close> on a fresh \<^verbatim>\<open>custom_parser\<close>, the bytes
  given to the token parser for a direction are exactly that direction's
  reassembled stream: none is skipped, repeated or fed out of order.
\<close>

theorem parse_run_feeds_stream:
  assumes "parse_run tp dec ps (custom_parser_init tp) = Inr (s', effs)"
  shows "fed_bytes t effs = raw (streams s' t)"
  using parse_run_fed [OF assms, of t] by (simp add: custom_parser_init_def empty_stream_def)

text \<open>
  C2: end to end.  When the segments of one direction tile a stream below
  \<open>2^32\<close> and the first of them arrives first, then however the others are ordered
  and interleaved with the other direction's segments, a run of \<^verbatim>\<open>parse\<close> gives
  the token parser exactly the whole stream, and leaves the direction's reassembly
  state at its end with nothing buffered.
\<close>

theorem parse_run_delivers_whole_stream:
  assumes "tiling b xs" and "xs \<noteq> []" and "mset js = mset [1..<length xs]"
    and "map fst (filter (\<lambda>x. snd x = t) ps) = map (segment b xs) (0 # js)"
    and "parse_run tp dec ps (custom_parser_init tp) = Inr (s', effs)"
  shows "fed_bytes t effs = concat xs \<and>
         streams s' t = \<lparr>raw = concat xs, next_seq = b + of_nat (length (concat xs)), ooo = []\<rparr>"
proof -
  have "streams s' t = reassemble_all (map (segment b xs) (0 # js)) empty_stream"
    using parse_run_streams [OF assms(5), of t] assms(4) by (simp add: custom_parser_init_def)
  also have "\<dots> = \<lparr>raw = concat xs, next_seq = b + of_nat (length (concat xs)), ooo = []\<rparr>"
    using mset_upt_distinct_set [OF assms(3)] by (intro ord_complete [OF assms(1,2)]) auto
  finally have st: "streams s' t = \<lparr>raw = concat xs, next_seq = b + of_nat (length (concat xs)), ooo = []\<rparr>" .
  from parse_run_fed [OF assms(5), of t] st show ?thesis
    by (simp add: custom_parser_init_def empty_stream_def)
qed


section \<open>Reachable states across the components\<close>

lemma callback_complete_mono:
  "complete_flag s t' \<Longrightarrow> complete_flag (fst (callback dec t chunk s e)) t'"
  by (cases e) (auto simp: on_url_def on_header_field_def on_header_value_def on_headers_complete_def
      on_body_def on_message_complete_def Let_def split: option.split)

lemma run_callbacks_complete_mono:
  "run_callbacks dec t chunk x es = (s', outs) \<Longrightarrow> complete_flag x t' \<Longrightarrow> complete_flag s' t'"
proof (induction es arbitrary: x outs)
  case Nil
  then show ?case by simp
next
  case (Cons e es)
  obtain x1 o1 where c: "callback dec t chunk x e = (x1, o1)" by fastforce
  from Cons.prems(1) c obtain o2 where r: "run_callbacks dec t chunk x1 es = (s', o2)"
    by (auto split: prod.splits)
  from callback_complete_mono [OF Cons.prems(2), of dec t chunk e] c have "complete_flag x1 t'" by simp
  with r show ?case by (rule Cons.IH)
qed

lemma run_callbacks_eq_address:
  "run_callbacks dec t chunk x es = (s', outs) \<Longrightarrow> address s' = address x"
  using run_callbacks_frame [of dec t chunk x es] by simp

lemma parse_both_slot:
  assumes "parse tp dec pkt t s = Inr (r, s', effs)" and "both_slot_unused s"
  shows "both_slot_unused s'"
  using assms(1)
proof (cases rule: parse_Inr)
  case retrans
  with assms(2) show ?thesis by (simp add: both_slot_unused_def)
next
  case (nogrow st)
  with assms(2) show ?thesis by (auto simp: both_slot_unused_def is_direction_def)
next
  case (fed st ps' evs n outs)
  have ne: "HTTP_BOTH \<noteq> t" using fed(1) by (auto simp: is_direction_def)
  from run_callbacks_eq_frame [OF fed(5)] run_callbacks_eq_other_direction [OF fed(5) ne]
    run_callbacks_eq_address [OF fed(5)] ne assms(2)
  show ?thesis by (auto simp: both_slot_unused_def)
qed

text \<open>
  C39: in every reachable state the \<^verbatim>\<open>HTTP_BOTH\<close> entries of the per-direction
  arrays are untouched: no stream, header, body, completion flag or address is ever
  stored under the third parser type.
\<close>

theorem reachable_both_slot_unused:
  assumes "reachable tp dec s"
  shows "both_slot_unused s"
  using assms
proof (induction rule: reachable.induct)
  case reach_init
  show ?case by (simp add: both_slot_unused_def custom_parser_init_def)
next
  case (reach_parse s p t r s' effs)
  from reach_parse.hyps(2) reach_parse.IH show ?case by (rule parse_both_slot)
next
  case (reach_set_addr s a b)
  then show ?case by (simp add: both_slot_unused_def set_addr_def)
qed

text \<open>
  C40: completion is never undone: once a direction's message has completed, no call
  of \<^verbatim>\<open>parse\<close> clears its flag (so a second message on the connection is never
  seen as incomplete).
\<close>

theorem parse_keeps_completion:
  assumes "parse tp dec pkt t s = Inr (r, s', effs)" and "complete_flag s t'"
  shows "complete_flag s' t'"
  using assms(1)
proof (cases rule: parse_Inr)
  case retrans
  with assms(2) show ?thesis by (simp add: http_parser_init_def)
next
  case (nogrow st)
  with assms(2) show ?thesis by simp
next
  case (fed st ps' evs n outs)
  from fed(5) show ?thesis by (rule run_callbacks_complete_mono) (simp add: assms(2))
qed

section \<open>Where a failure comes from\<close>

text \<open>
  C27: \<^verbatim>\<open>parse\<close> returns false only after giving the token parser a non-empty chunk,
  the new bytes of the stream, on which the parser consumed nothing or set its
  errno; retransmissions, buffered segments and a stream that did not grow all
  return true.
\<close>

theorem parse_false_from_parser:
  assumes "parse tp dec pkt t s = Inr (False, s', effs)"
  shows "\<exists>c ps' evs n outs. effs = Parser_execute t c # outs \<and> c \<noteq> [] \<and>
           c = drop (length (raw (streams s t))) (raw (streams s' t)) \<and>
           tp_execute tp (if ptype (parser s) = t then pstate (parser s) else tp_init tp t) c = (ps', evs, n) \<and>
           (n = 0 \<or> \<not> tp_errno_ok tp ps')"
  using assms
proof (cases rule: parse_Inr)
  case retrans
  then show ?thesis by simp
next
  case (nogrow st)
  then show ?thesis by simp
next
  case (fed st ps' evs n outs)
  from run_callbacks_eq_frame [OF fed(5)] have "streams s' t = st" by simp
  moreover from fed(3) have "drop (length (raw (streams s t))) (raw st) \<noteq> []" by simp
  ultimately show ?thesis using fed(4,6,7)
    by (intro exI [of _ "drop (length (raw (streams s t))) (raw st)"]) (auto simp: http_parser_init_def)
qed

section \<open>Witnesses\<close>

theorem parse_run_feeds_stream_witness:
  "\<exists>s' effs. parse_run null_token_parser (\<lambda>_. None)
       [(\<lparr>seq = 5, payload = ''ab''\<rparr>, HTTP_REQUEST), (\<lparr>seq = 9, payload = ''ef''\<rparr>, HTTP_REQUEST),
        (\<lparr>seq = 1, payload = ''xy''\<rparr>, HTTP_RESPONSE), (\<lparr>seq = 7, payload = ''cd''\<rparr>, HTTP_REQUEST)]
       (custom_parser_init null_token_parser) = Inr (s', effs) \<and>
     fed_bytes HTTP_REQUEST effs = raw (streams s' HTTP_REQUEST) \<and>
     raw (streams s' HTTP_REQUEST) = ''abcdef''"
proof -
  have "\<exists>v. parse_run null_token_parser (\<lambda>_. None)
       [(\<lparr>seq = 5, payload = ''ab''\<rparr>, HTTP_REQUEST), (\<lparr>seq = 9, payload = ''ef''\<rparr>, HTTP_REQUEST),
        (\<lparr>seq = 1, payload = ''xy''\<rparr>, HTTP_RESPONSE), (\<lparr>seq = 7, payload = ''cd''\<rparr>, HTTP_REQUEST)]
       (custom_parser_init null_token_parser) = Inr v"
    by (simp add: parse_def reassemble_def drain_ooo.simps null_token_parser_def map_insert_def
        custom_parser_init_def http_parser_init_def empty_stream_def Let_def)
  then obtain s' effs where e: "parse_run null_token_parser (\<lambda>_. None)
       [(\<lparr>seq = 5, payload = ''ab''\<rparr>, HTTP_REQUEST), (\<lparr>seq = 9, payload = ''ef''\<rparr>, HTTP_REQUEST),
        (\<lparr>seq = 1, payload = ''xy''\<rparr>, HTTP_RESPONSE), (\<lparr>seq = 7, payload = ''cd''\<rparr>, HTTP_REQUEST)]
       (custom_parser_init null_token_parser) = Inr (s', effs)" by fastforce
  have r: "raw (streams s' HTTP_REQUEST) = ''abcdef''"
    using e by (auto simp: parse_def reassemble_def drain_ooo.simps null_token_parser_def map_insert_def
        custom_parser_init_def http_parser_init_def empty_stream_def Let_def)
  from parse_run_feeds_stream [OF e, of HTTP_REQUEST] e r show ?thesis by blast
qed

theorem parse_run_delivers_whole_stream_witness:
  "\<exists>s' effs. parse_run null_token_parser (\<lambda>_. None)
       [(segment 5 [''ab'', ''cd'', ''ef''] 0, HTTP_REQUEST), (segment 5 [''ab'', ''cd'', ''ef''] 2, HTTP_REQUEST),
        (\<lparr>seq = 1, payload = ''xy''\<rparr>, HTTP_RESPONSE), (segment 5 [''ab'', ''cd'', ''ef''] 1, HTTP_REQUEST)]
       (custom_parser_init null_token_parser) = Inr (s', effs) \<and>
     fed_bytes HTTP_REQUEST effs = ''abcdef''"
proof -
  let ?xs = "[''ab'', ''cd'', ''ef'']"
  let ?ps = "[(segment 5 ?xs 0, HTTP_REQUEST), (segment 5 ?xs 2, HTTP_REQUEST),
        (\<lparr>seq = 1, payload = ''xy''\<rparr>, HTTP_RESPONSE), (segment 5 ?xs 1, HTTP_REQUEST)]"
  have "\<exists>v. parse_run null_token_parser (\<lambda>_. None) ?ps (custom_parser_init null_token_parser) = Inr v"
    by (simp add: parse_def reassemble_def drain_ooo.simps null_token_parser_def map_insert_def
        custom_parser_init_def http_parser_init_def empty_stream_def Let_def segment_def seg_seq_def seg_off_def)
  then obtain s' effs where e: "parse_run null_token_parser (\<lambda>_. None) ?ps
       (custom_parser_init null_token_parser) = Inr (s', effs)" by fastforce
  have t: "tiling 5 ?xs" by (simp add: tiling_def)
  have m: "mset [2, 1] = mset [1..<length ?xs]" by code_simp
  have f: "map fst (filter (\<lambda>x. snd x = HTTP_REQUEST) ?ps) = map (segment 5 ?xs) (0 # [2, 1])" by simp
  from parse_run_delivers_whole_stream [OF t _ m f e] e show ?thesis by auto
qed

theorem reachable_both_slot_unused_witness:
  "both_slot_unused (set_addr ''10.0.0.1:80'' ''10.0.0.2:5000'' (custom_parser_init null_token_parser))"
proof -
  have "reachable null_token_parser (\<lambda>_. None) (custom_parser_init null_token_parser)"
    by (rule reach_init)
  then have "reachable null_token_parser (\<lambda>_. None)
      (set_addr ''10.0.0.1:80'' ''10.0.0.2:5000'' (custom_parser_init null_token_parser))"
    by (rule reach_set_addr)
  then show ?thesis by (rule reachable_both_slot_unused)
qed

theorem parse_keeps_completion_witness:
  "\<exists>r s' effs. parse null_token_parser (\<lambda>_. None) \<lparr>seq = 5, payload = ''ab''\<rparr> HTTP_REQUEST
       ((custom_parser_init null_token_parser)\<lparr>complete_flag := (\<lambda>_. False)(HTTP_RESPONSE := True)\<rparr>)
     = Inr (r, s', effs) \<and> complete_flag s' HTTP_RESPONSE"
proof -
  let ?s = "(custom_parser_init null_token_parser)\<lparr>complete_flag := (\<lambda>_. False)(HTTP_RESPONSE := True)\<rparr>"
  have "\<exists>v. parse null_token_parser (\<lambda>_. None) \<lparr>seq = 5, payload = ''ab''\<rparr> HTTP_REQUEST ?s = Inr v"
    by (simp add: parse_def reassemble_def drain_ooo.simps null_token_parser_def
        custom_parser_init_def http_parser_init_def empty_stream_def Let_def) blast
  then obtain r s' effs where e: "parse null_token_parser (\<lambda>_. None) \<lparr>seq = 5, payload = ''ab''\<rparr>
       HTTP_REQUEST ?s = Inr (r, s', effs)" by (metis prod_cases3)
  have "complete_flag ?s HTTP_RESPONSE" by simp
  with e have "complete_flag s' HTTP_RESPONSE" by (rule parse_keeps_completion)
  with e show ?thesis by blast
qed

theorem parse_false_from_parser_witness:
  "\<exists>s' effs c outs. parse failing_token_parser (\<lambda>_. None) \<lparr>seq = 1, payload = ''GET !''\<rparr> HTTP_REQUEST
       (custom_parser_init failing_token_parser) = Inr (False, s', effs) \<and>
     effs = Parser_execute HTTP_REQUEST c # outs \<and> c \<noteq> []"
proof -
  have "\<exists>s' effs. parse failing_token_parser (\<lambda>_. None) \<lparr>seq = 1, payload = ''GET !''\<rparr> HTTP_REQUEST
       (custom_parser_init failing_token_parser) = Inr (False, s', effs)"
    by (simp add: parse_def reassemble_def drain_ooo.simps failing_token_parser_def
        custom_parser_init_def http_parser_init_def empty_stream_def Let_def)
  then obtain s' effs where e: "parse failing_token_parser (\<lambda>_. None) \<lparr>seq = 1, payload = ''GET !''\<rparr>
       HTTP_REQUEST (custom_parser_init failing_token_parser) = Inr (False, s', effs)"
    by blast
  from parse_false_from_parser [OF e] obtain c outs where "effs = Parser_execute HTTP_REQUEST c # outs"
    and "c \<noteq> []" by blast
  with e show ?thesis by blast
qed

end
